theory Spec2Isabelle
  imports Complex_Main "HOL-Library.Multiset"
begin

section \<open>Bigram counting and the softmax trainer of \<open>lr_vs_counting.py\<close>\<close>

text \<open>
  The program works on numpy arrays of float64. The embedding takes the entries to be
  real numbers: \<open>+\<close>, \<open>*\<close>, \<open>/\<close>, \<open>exp\<close> and \<open>log\<close> are the exact operations, so rounding,
  overflow and underflow are outside that model; \<open>softmax\<close> and \<open>smoothed_loss\<close> are
  modelled on float64 as well, in a subsection of their own. A two-dimensional array is a
  list of rows.
  Token ids and index arguments are Python integers (\<open>int\<close>); numpy accepts an index \<open>i\<close>
  of an axis of length \<open>n\<close> when \<open>-n \<le> i < n\<close>, a negative one counting from the end, and
  raises IndexError otherwise.
\<close>

subsection \<open>Outcomes\<close>

text \<open>
  \<open>IndexError\<close> and \<open>ValueError\<close> are the exceptions numpy raises (an index out of bounds;
  a reduction of an empty array, or operands whose shapes do not fit). \<open>NonFinite\<close> stands
  for an operation without a real value, a division by zero or the logarithm of a number
  that is not positive: on float64 operands numpy warns and stores \<open>nan\<close> or \<open>inf\<close>, so
  no array of real numbers results. The model records that outcome instead of HOL's
  \<open>x / 0 = 0\<close>. \<open>OverflowError\<close> is what Python's \<open>**\<close> on floats raises when the power is
  too large for a float; it occurs in the float64 model of \<open>smoothed_loss\<close> only.
\<close>

datatype error = IndexError | ValueError | NonFinite | OverflowError

type_synonym matrix = "real list list"

text \<open>
  Sequencing of statements that may fail, and a \<open>for\<close> loop whose body may fail: the
  first failure ends the computation.
\<close>

definition and_then :: "error + 'a \<Rightarrow> ('a \<Rightarrow> error + 'b) \<Rightarrow> error + 'b" where
  "and_then r f = (case r of Inl e \<Rightarrow> Inl e | Inr x \<Rightarrow> f x)"

fun for_each :: "('a \<Rightarrow> 's \<Rightarrow> error + 's) \<Rightarrow> 'a list \<Rightarrow> 's \<Rightarrow> error + 's" where
  "for_each f [] s = Inr s"
| "for_each f (x # xs) s = (case f x s of Inl e \<Rightarrow> Inl e | Inr s' \<Rightarrow> for_each f xs s')"

definition np_index :: "nat \<Rightarrow> int \<Rightarrow> error + nat" where
  "np_index n i =
     (if 0 \<le> i \<and> i < int n then Inr (nat i)
      else if - int n \<le> i \<and> i < 0 then Inr (nat (i + int n))
      else Inl IndexError)"

subsection \<open>\<open>get_bigram_probs\<close>\<close>

text \<open>\<open>bigram_probs[r, c] += 1\<close>\<close>

definition add_at :: "matrix \<Rightarrow> int \<Rightarrow> int \<Rightarrow> error + matrix" where
  "add_at M r c =
     (case np_index (length M) r of
        Inl e \<Rightarrow> Inl e
      | Inr r' \<Rightarrow>
          (case np_index (length (M ! r')) c of
             Inl e \<Rightarrow> Inl e
           | Inr c' \<Rightarrow> Inr (M[r' := (M ! r')[c' := M ! r' ! c' + 1]])))"

text \<open>The body of the inner loop (lines 19 to 31) at position \<open>i\<close> of the sentence.\<close>

definition count_position :: "int \<Rightarrow> int \<Rightarrow> int list \<Rightarrow> nat \<Rightarrow> matrix \<Rightarrow> error + matrix" where
  "count_position start_idx end_idx sentence i M =
     (case (if i = 0 then add_at M start_idx (sentence ! i)
            else add_at M (sentence ! (i - 1)) (sentence ! i)) of
        Inl e \<Rightarrow> Inl e
      | Inr M1 \<Rightarrow>
          if int i = int (length sentence) - 1 then add_at M1 (sentence ! i) end_idx
          else Inr M1)"

text \<open>\<open>for i in range(len(sentence))\<close>\<close>

definition count_sentence :: "int \<Rightarrow> int \<Rightarrow> int list \<Rightarrow> matrix \<Rightarrow> error + matrix" where
  "count_sentence start_idx end_idx sentence M =
     for_each (count_position start_idx end_idx sentence) [0..<length sentence] M"

text \<open>
  Lines 15 to 31: the table of smoothed counts before normalisation. \<open>V\<close> is the side of
  the table, a natural number (\<open>np.ones\<close> takes no negative dimension).
\<close>

definition bigram_counts :: "int list list \<Rightarrow> nat \<Rightarrow> int \<Rightarrow> int \<Rightarrow> real \<Rightarrow> error + matrix" where
  "bigram_counts sentences V start_idx end_idx smoothing =
     for_each (count_sentence start_idx end_idx) sentences
       (map (map (\<lambda>x. x * smoothing)) (replicate V (replicate V 1)))"

text \<open>\<open>a / a.sum(axis=1, keepdims=True)\<close>: every row divided by its own sum.\<close>

definition normalize_rows :: "matrix \<Rightarrow> error + matrix" where
  "normalize_rows M =
     (if list_ex (\<lambda>row. row \<noteq> [] \<and> sum_list row = 0) M then Inl NonFinite
      else Inr (map (\<lambda>row. map (\<lambda>x. x / sum_list row) row) M))"

definition get_bigram_probs :: "int list list \<Rightarrow> nat \<Rightarrow> int \<Rightarrow> int \<Rightarrow> real \<Rightarrow> error + matrix" where
  "get_bigram_probs sentences V start_idx end_idx smoothing =
     (case bigram_counts sentences V start_idx end_idx smoothing of
        Inl e \<Rightarrow> Inl e
      | Inr counts \<Rightarrow> normalize_rows counts)"

subsection \<open>\<open>smoothed_loss\<close>\<close>

text \<open>
  The loop state is the pair of the array \<open>y\<close> and the variable \<open>last\<close> (here \<open>last_z\<close>).
  One iteration at index \<open>t\<close> follows; a zero denominator has no real quotient (\<open>inf\<close> or
  \<open>nan\<close> on the float64 losses the program passes, ZeroDivisionError on Python floats).
\<close>

definition smooth_step :: "real \<Rightarrow> real list \<Rightarrow> nat \<Rightarrow> real list \<times> real \<Rightarrow> error + real list \<times> real" where
  "smooth_step decay x t st =
     (case st of (y, last_z) \<Rightarrow>
        let z = decay * last_z + (1 - decay) * x ! t in
        if 1 - decay ^ (t + 1) = 0 then Inl NonFinite
        else Inr (y[t := z / (1 - decay ^ (t + 1))], z))"

definition smoothed_loss :: "real list \<Rightarrow> real \<Rightarrow> error + real list" where
  "smoothed_loss x decay =
     (case for_each (smooth_step decay x) [0..<length x] (replicate (length x) 0, 0) of
        Inl e \<Rightarrow> Inl e
      | Inr (y, last_z) \<Rightarrow> Inr y)"

subsection \<open>The training step\<close>

text \<open>
  Arrays are rectangular, so the number of columns is read off the first row. The weight
  matrix \<open>W\<close> is created \<open>V \<times> V\<close> (line 63) and line 97 keeps that shape; all arrays of the
  step then have fitting shapes. Where shapes differ the model reports ValueError and does
  not follow numpy's broadcasting.
\<close>

definition ncols :: "matrix \<Rightarrow> nat" where
  "ncols a = (case a of [] \<Rightarrow> 0 | row # _ \<Rightarrow> length row)"

definition zeros :: "nat \<Rightarrow> nat \<Rightarrow> matrix" where
  "zeros m n = replicate m (replicate n 0)"

text \<open>\<open>a[rows, cols] = 1\<close> for two index sequences of the same length.\<close>

definition set_ones :: "matrix \<Rightarrow> int list \<Rightarrow> int list \<Rightarrow> error + matrix" where
  "set_ones a rows cols =
     for_each (\<lambda>(r, c) a.
         and_then (np_index (length a) r) (\<lambda>r'.
         and_then (np_index (length (a ! r')) c) (\<lambda>c'.
         Inr (a[r' := (a ! r')[c' := 1]]))))
       (zip rows cols) a"

text \<open>\<open>a.dot(b)\<close>, \<open>a.T\<close>, an elementwise binary operation, and \<open>lr * a\<close>.\<close>

definition matmul :: "matrix \<Rightarrow> matrix \<Rightarrow> matrix" where
  "matmul a b =
     map (\<lambda>row. map (\<lambda>j. sum_list (map (\<lambda>k. row ! k * b ! k ! j) [0..<length b])) [0..<ncols b]) a"

definition dot :: "matrix \<Rightarrow> matrix \<Rightarrow> error + matrix" where
  "dot a b = (if ncols a = length b then Inr (matmul a b) else Inl ValueError)"

definition transposed :: "matrix \<Rightarrow> matrix" where
  "transposed a = map (\<lambda>j. map (\<lambda>row. row ! j) a) [0..<ncols a]"

definition elementwise :: "(real \<Rightarrow> real \<Rightarrow> real) \<Rightarrow> matrix \<Rightarrow> matrix \<Rightarrow> error + matrix" where
  "elementwise f a b =
     (if length a = length b \<and> ncols a = ncols b then Inr (map2 (map2 f) a b)
      else Inl ValueError)"

definition scaled :: "real \<Rightarrow> matrix \<Rightarrow> matrix" where
  "scaled lr a = map (map (\<lambda>x. lr * x)) a"

text \<open>\<open>np.log(a)\<close>\<close>

definition np_log :: "matrix \<Rightarrow> error + matrix" where
  "np_log a =
     (if list_ex (list_ex (\<lambda>x. x \<le> 0)) a then Inl NonFinite else Inr (map (map ln) a))"

text \<open>
  \<open>softmax\<close> (lines 69 to 72): \<open>a.max()\<close> is the maximum over all entries of the array and
  raises ValueError on an array without entries.
\<close>

definition softmax :: "matrix \<Rightarrow> error + matrix" where
  "softmax a =
     (if concat a = [] then Inl ValueError
      else
        let a1 = map (map (\<lambda>x. x - Max (set (concat a)))) a;
            exp_a = map (map exp) a1
        in normalize_rows exp_a)"

text \<open>
  Lines 86 to 91: the padded sentence and the one-hot \<open>inputs\<close> and \<open>targets\<close>, each with
  \<open>n - 1\<close> rows.
\<close>

definition one_hot_pairs :: "nat \<Rightarrow> int \<Rightarrow> int \<Rightarrow> int list \<Rightarrow> error + matrix \<times> matrix" where
  "one_hot_pairs V start_idx end_idx sentence =
     (let padded = [start_idx] @ sentence @ [end_idx];
          n = length padded
      in and_then (set_ones (zeros (n - 1) V) (map int [0..<n - 1]) (take (n - 1) padded))
           (\<lambda>inputs.
         and_then (set_ones (zeros (n - 1) V) (map int [0..<n - 1]) (drop 1 padded))
           (\<lambda>targets.
         Inr (inputs, targets))))"

text \<open>\<open>-np.sum(targets * np.log(predictions)) / (n - 1)\<close>, with \<open>rows\<close> for \<open>n - 1\<close>.\<close>

definition mean_cross_entropy :: "matrix \<Rightarrow> matrix \<Rightarrow> nat \<Rightarrow> error + real" where
  "mean_cross_entropy targets predictions rows =
     and_then (np_log predictions) (\<lambda>logs.
     and_then (elementwise (*) targets logs) (\<lambda>products.
     if rows = 0 then Inl NonFinite
     else Inr (- sum_list (concat products) / real rows)))"

text \<open>
  Lines 86 to 100, one gradient step on one sentence. The result holds the values of the
  loop body's variables after line 100.
\<close>

record step_result =
  r_W :: matrix
  r_loss :: real
  r_inputs :: matrix
  r_targets :: matrix
  r_predictions :: matrix

definition train_step :: "nat \<Rightarrow> int \<Rightarrow> int \<Rightarrow> real \<Rightarrow> matrix \<Rightarrow> int list \<Rightarrow> error + step_result" where
  "train_step V start_idx end_idx lr W sentence =
     and_then (one_hot_pairs V start_idx end_idx sentence) (\<lambda>(inputs, targets).
     and_then (dot inputs W) (\<lambda>logits.
     and_then (softmax logits) (\<lambda>predictions.
     and_then (elementwise (-) predictions targets) (\<lambda>delta.
     and_then (dot (transposed inputs) delta) (\<lambda>gradient.
     and_then (elementwise (-) W (scaled lr gradient)) (\<lambda>W'.
     and_then (mean_cross_entropy targets predictions (length sentence + 1)) (\<lambda>loss.
     Inr \<lparr>r_W = W', r_loss = loss, r_inputs = inputs, r_targets = targets,
          r_predictions = predictions\<rparr>)))))))"

text \<open>
  The body of the loop over the sentences (lines 84 to 113) on the program's mutable
  state: the weights, the two loss lists and the counter \<open>j\<close>. \<open>W_bigram\<close> and \<open>epoch\<close>
  are read only; printing is not modelled.
\<close>

record train_state =
  st_W :: matrix
  st_losses :: "real list"
  st_bigram_losses :: "real list"
  st_j :: nat

definition loop_body ::
  "nat \<Rightarrow> int \<Rightarrow> int \<Rightarrow> real \<Rightarrow> matrix \<Rightarrow> nat \<Rightarrow> int list \<Rightarrow> train_state \<Rightarrow> error + train_state" where
  "loop_body V start_idx end_idx lr W_bigram epoch sentence st =
     and_then (train_step V start_idx end_idx lr (st_W st) sentence) (\<lambda>r.
     and_then
       (if epoch = 0 then
          and_then (dot (r_inputs r) W_bigram) (\<lambda>bigram_logits.
          and_then (softmax bigram_logits) (\<lambda>bigram_predictions.
          and_then (mean_cross_entropy (r_targets r) bigram_predictions (length sentence + 1))
            (\<lambda>bigram_loss. Inr (st_bigram_losses st @ [bigram_loss]))))
        else Inr (st_bigram_losses st))
       (\<lambda>bigram_losses'.
     Inr \<lparr>st_W = r_W r, st_losses = st_losses st @ [r_loss r],
          st_bigram_losses = bigram_losses', st_j = st_j st + 1\<rparr>))"

subsection \<open>Reference notions of the specification\<close>

text \<open>
  The one-hot vector of a token id, and the softmax as the specification words it: per
  row, subtract the row's maximum, exponentiate, divide by the row's sum.
\<close>

definition one_hot :: "nat \<Rightarrow> int \<Rightarrow> real list" where
  "one_hot V t = map (\<lambda>c. if int c = t then 1 else 0) [0..<V]"

definition softmax_row :: "real list \<Rightarrow> real list" where
  "softmax_row row =
     (let e = map (\<lambda>x. exp (x - Max (set row))) row in map (\<lambda>y. y / sum_list e) e)"

definition softmax_per_row :: "matrix \<Rightarrow> matrix" where
  "softmax_per_row a = map softmax_row a"

subsection \<open>\<open>softmax\<close> and \<open>smoothed_loss\<close> on float64\<close>

text \<open>
  Two claims turn on rounding, so these two functions are modelled a second time, on
  float64 values. A value is a finite number, an infinity or \<open>nan\<close>; \<open>Finite r\<close> is meant
  for a real \<open>r\<close> that binary64 represents. The sign of zero is not modelled: every zero
  divisor of the two functions is \<open>+0.0\<close> (a sum of exponentials, or \<open>1 - 1\<close>).

  \<open>round64\<close> is IEEE 754 rounding of a real result: to the nearest representable number,
  ties to the even significand, 53 significant bits, gradual underflow below \<open>2^-1022\<close>,
  infinity when the rounded magnitude reaches \<open>2^1024\<close>. The arithmetic operations round
  the exact result once, as IEEE 754 prescribes. \<open>np.exp\<close> is taken to be the rounded
  exponential and Python's \<open>**\<close> the rounded power (exact for the exponent 1, and raising
  OverflowError where it overflows); a library may differ from these in the last bit, not
  where the result is exact or underflows to zero. A row is summed from left to right,
  which is numpy's order for rows of fewer than 8 entries.
\<close>

datatype f64 = Finite real | PosInf | NegInf | NaN

definition round_even :: "real \<Rightarrow> int" where
  "round_even q =
     (let f = \<lfloor>q\<rfloor>; d = q - of_int f
      in if d < 1/2 then f else if 1/2 < d then f + 1 else if even f then f else f + 1)"

definition nearest64 :: "real \<Rightarrow> real" where
  "nearest64 r =
     (if r = 0 then 0
      else
        let e = max \<lfloor>log 2 \<bar>r\<bar>\<rfloor> (- 1022);
            ulp = 2 powi (e - 52)
        in of_int (round_even (r / ulp)) * ulp)"

definition round64 :: "real \<Rightarrow> f64" where
  "round64 r =
     (let v = nearest64 r
      in if 2 ^ 1024 \<le> v then PosInf else if v \<le> - (2 ^ 1024) then NegInf else Finite v)"


text \<open>Negation, \<open>+\<close>, \<open>-\<close>, \<open>*\<close>, \<open>/\<close>, \<open>np.exp\<close> and the maximum of two values (numpy's \<open>max\<close>
  returns \<open>nan\<close> when an entry is \<open>nan\<close>).\<close>

fun f_neg :: "f64 \<Rightarrow> f64" where
  "f_neg (Finite a) = Finite (- a)"
| "f_neg PosInf = NegInf"
| "f_neg NegInf = PosInf"
| "f_neg NaN = NaN"

fun f_add :: "f64 \<Rightarrow> f64 \<Rightarrow> f64" where
  "f_add (Finite a) (Finite b) = round64 (a + b)"
| "f_add NaN y = NaN"
| "f_add x NaN = NaN"
| "f_add PosInf NegInf = NaN"
| "f_add NegInf PosInf = NaN"
| "f_add PosInf y = PosInf"
| "f_add x PosInf = PosInf"
| "f_add NegInf y = NegInf"
| "f_add x NegInf = NegInf"

definition f_sub :: "f64 \<Rightarrow> f64 \<Rightarrow> f64" where
  "f_sub x y = f_add x (f_neg y)"

fun f_mul :: "f64 \<Rightarrow> f64 \<Rightarrow> f64" where
  "f_mul (Finite a) (Finite b) = round64 (a * b)"
| "f_mul NaN y = NaN"
| "f_mul x NaN = NaN"
| "f_mul (Finite a) y = (if a = 0 then NaN else if 0 < a then y else f_neg y)"
| "f_mul x (Finite b) = (if b = 0 then NaN else if 0 < b then x else f_neg x)"
| "f_mul PosInf y = y"
| "f_mul NegInf y = f_neg y"

fun f_div :: "f64 \<Rightarrow> f64 \<Rightarrow> f64" where
  "f_div (Finite a) (Finite b) =
     (if b = 0 then (if a = 0 then NaN else if 0 < a then PosInf else NegInf)
      else round64 (a / b))"
| "f_div NaN y = NaN"
| "f_div x NaN = NaN"
| "f_div (Finite a) y = Finite 0"
| "f_div PosInf (Finite b) = (if 0 \<le> b then PosInf else NegInf)"
| "f_div NegInf (Finite b) = (if 0 \<le> b then NegInf else PosInf)"
| "f_div x y = NaN"







text \<open>
  Lines 124 to 131. \<open>decay\<close> is a Python float, the entries of \<open>x\<close> are float64 (the
  recorded losses), \<open>last\<close> starts as the integer 0.
\<close>

definition smooth_step64 ::
  "real \<Rightarrow> f64 list \<Rightarrow> nat \<Rightarrow> f64 list \<times> f64 \<Rightarrow> error + f64 list \<times> f64" where
  "smooth_step64 decay x t st =
     (case st of (y, last_z) \<Rightarrow>
        let z = f_add (f_mul (Finite decay) last_z)
                  (f_mul (f_sub (Finite 1) (Finite decay)) (x ! t))
        in case round64 (decay ^ (t + 1)) of
             Finite p \<Rightarrow> Inr (y[t := f_div z (f_sub (Finite 1) (Finite p))], z)
           | _ \<Rightarrow> Inl OverflowError)"

definition smoothed_loss64 :: "f64 list \<Rightarrow> real \<Rightarrow> error + f64 list" where
  "smoothed_loss64 x decay =
     (case for_each (smooth_step64 decay x) [0..<length x]
             (replicate (length x) (Finite 0), Finite 0) of
        Inl e \<Rightarrow> Inl e
      | Inr (y, last_z) \<Rightarrow> Inr y)"

subsection \<open>Notions used in the statements and proofs\<close>

text \<open>
  An index accepted by numpy for an axis of length \<open>n\<close>, the position it denotes, a token
  id of the vocabulary, a rectangular array, and the index pairs a sentence increments, in
  the order of the loop: \<open>(start_idx, s[0]), (s[0], s[1]), \<dots>, (s[n-1], end_idx)\<close>.
\<close>

definition valid_idx :: "nat \<Rightarrow> int \<Rightarrow> bool" where
  "valid_idx n i \<longleftrightarrow> - int n \<le> i \<and> i < int n"

definition norm_idx :: "nat \<Rightarrow> int \<Rightarrow> nat" where
  "norm_idx n i = (if 0 \<le> i then nat i else nat (i + int n))"

definition is_table :: "nat \<Rightarrow> nat \<Rightarrow> matrix \<Rightarrow> bool" where
  "is_table m n M \<longleftrightarrow> length M = m \<and> (\<forall>row \<in> set M. length row = n)"

definition pairs :: "int \<Rightarrow> int \<Rightarrow> int list \<Rightarrow> (int \<times> int) list" where
  "pairs start_idx end_idx s = (if s = [] then [] else zip (start_idx # s) (s @ [end_idx]))"

definition add_all :: "(int \<times> int) list \<Rightarrow> matrix \<Rightarrow> error + matrix" where
  "add_all ps M = for_each (\<lambda>(r, c) M. add_at M r c) ps M"

definition tally :: "nat \<Rightarrow> (int \<times> int) list \<Rightarrow> matrix \<Rightarrow> matrix" where
  "tally V ps M =
     map (\<lambda>i. map (\<lambda>j. M ! i ! j
            + real (count_list (map (\<lambda>(r, c). (norm_idx V r, norm_idx V c)) ps) (i, j)))
          [0..<V]) [0..<V]"

definition all_pairs :: "int \<Rightarrow> int \<Rightarrow> int list list \<Rightarrow> (int \<times> int) list" where
  "all_pairs st en ss = concat (map (pairs st en) ss)"

definition pairs_ok :: "nat \<Rightarrow> (int \<times> int) list \<Rightarrow> bool" where
  "pairs_ok V ps \<longleftrightarrow> (\<forall>(r, c) \<in> set ps. valid_idx V r \<and> valid_idx V c)"

definition in_vocab :: "nat \<Rightarrow> int \<Rightarrow> bool" where
  "in_vocab V t \<longleftrightarrow> 0 \<le> t \<and> t < int V"

section \<open>Properties\<close>

subsection \<open>Loops\<close>

lemma for_each_append:
  "for_each f (xs @ ys) s = (case for_each f xs s of Inl e \<Rightarrow> Inl e | Inr s' \<Rightarrow> for_each f ys s')"
  by (induction xs arbitrary: s) (auto split: sum.splits)

lemma for_each_snoc:
  "for_each f (xs @ [x]) s = (case for_each f xs s of Inl e \<Rightarrow> Inl e | Inr s' \<Rightarrow> f x s')"
  by (simp add: for_each_append split: sum.splits)

subsection \<open>Exponential smoothing\<close>

lemma decay_power_less_one:
  fixes d :: real
  assumes "0 \<le> d" "d < 1"
  shows "1 - d ^ (t + 1) \<noteq> 0"
proof -
  have "d ^ t \<le> 1"
    using assms by (simp add: power_le_one)
  then have "d * d ^ t \<le> d * 1"
    using assms(1) by (rule mult_left_mono)
  with assms(2) have "d ^ (t + 1) < 1"
    by simp
  then show ?thesis by simp
qed

lemma smooth_step_ok:
  fixes d :: real
  assumes "0 \<le> d" "d < 1"
  shows "smooth_step d x t (y, z) =
           Inr (y[t := (d * z + (1 - d) * x ! t) / (1 - d ^ (t + 1))], d * z + (1 - d) * x ! t)"
  using decay_power_less_one [OF assms, of t] by (simp add: smooth_step_def Let_def)

lemma smooth_loop_prefix:
  fixes d :: real
  assumes d: "0 \<le> d" "d < 1" and k: "k \<le> length x"
  shows "\<exists>y z. for_each (smooth_step d x) [0..<k] (replicate (length x) 0, 0) = Inr (y, z)
           \<and> length y = length x \<and> (0 < k \<longrightarrow> y ! 0 = x ! 0)"
  using k
proof (induction k)
  case 0
  then show ?case by simp
next
  case (Suc k)
  then obtain y z where run:
      "for_each (smooth_step d x) [0..<k] (replicate (length x) 0, 0) = Inr (y, z)"
    and len: "length y = length x" and first: "0 < k \<longrightarrow> y ! 0 = x ! 0"
    by auto
  let ?v = "d * z + (1 - d) * x ! k"
  let ?y = "y[k := ?v / (1 - d ^ (k + 1))]"
  have next_run: "for_each (smooth_step d x) [0..<Suc k] (replicate (length x) 0, 0) = Inr (?y, ?v)"
    by (simp add: for_each_snoc run smooth_step_ok [OF d])
  have "?y ! 0 = x ! 0"
  proof (cases "k = 0")
    case True
    with run have start: "y = replicate (length x) 0" "z = 0"
      by simp_all
    from Suc.prems have "0 < length y"
      using len by (cases x) simp_all
    then have "?y ! 0 = ?v / (1 - d ^ (k + 1))"
      using True by simp
    also have "\<dots> = x ! 0"
      using True start d by simp
    finally show ?thesis .
  next
    case False
    with first show ?thesis by simp
  qed
  with next_run len show ?case
    by simp
qed

text \<open>
  In exact real arithmetic the first smoothed value is the first raw value:
  \<open>z = (1 - d) x[0]\<close> and the denominator is \<open>1 - d\<close>.
\<close>

lemma smoothed_loss_exact:
  fixes d :: real
  assumes "0 \<le> d" "d < 1" "x \<noteq> []"
  shows "\<exists>y. smoothed_loss x d = Inr y \<and> length y = length x \<and> y ! 0 = x ! 0"
proof -
  from assms have "0 < length x" by simp
  with smooth_loop_prefix [OF assms(1,2), of "length x" x]
  show ?thesis
    by (auto simp: smoothed_loss_def)
qed

subsection \<open>The count table as a tally of index pairs\<close>

lemma np_index_eq:
  "np_index n i = (if valid_idx n i then Inr (norm_idx n i) else Inl IndexError)"
  by (auto simp: np_index_def valid_idx_def norm_idx_def)

lemma norm_idx_less: "valid_idx n i \<Longrightarrow> norm_idx n i < n"
  by (auto simp: valid_idx_def norm_idx_def)

lemma is_table_row: "is_table m n M \<Longrightarrow> i < m \<Longrightarrow> length (M ! i) = n"
  by (simp add: is_table_def)

lemma add_at_table:
  assumes "is_table V V M"
  shows "add_at M r c =
     (if valid_idx V r \<and> valid_idx V c
      then Inr (M[norm_idx V r := (M ! norm_idx V r)[norm_idx V c := M ! norm_idx V r ! norm_idx V c + 1]])
      else Inl IndexError)"
proof -
  have len: "length M = V" using assms by (simp add: is_table_def)
  show ?thesis
  proof (cases "valid_idx V r")
    case True
    then have "length (M ! norm_idx V r) = V"
      using assms by (simp add: is_table_row norm_idx_less)
    with True len show ?thesis
      by (simp add: add_at_def np_index_eq)
  next
    case False
    with len show ?thesis
      by (simp add: add_at_def np_index_eq)
  qed
qed

lemma bump_table:
  assumes "is_table V V M" "r < V"
  shows "is_table V V (M[r := (M ! r)[c := x]])"
  using assms by (auto simp: is_table_def set_conv_nth nth_list_update)

lemma bump_cell:
  assumes "is_table V V M" "r < V" "c < V" "i < V" "j < V"
  shows "M[r := (M ! r)[c := M ! r ! c + 1]] ! i ! j = M ! i ! j + (if (r, c) = (i, j) then 1 else 0)"
  using assms by (auto simp: is_table_def nth_list_update)

lemma table_ext:
  assumes "is_table m n A" "is_table m n B" "\<And>i j. i < m \<Longrightarrow> j < n \<Longrightarrow> A ! i ! j = B ! i ! j"
  shows "A = B"
proof (rule nth_equalityI)
  show "length A = length B" using assms by (simp add: is_table_def)
next
  fix i assume "i < length A"
  then have i: "i < m" using assms by (simp add: is_table_def)
  show "A ! i = B ! i"
  proof (rule nth_equalityI)
    show "length (A ! i) = length (B ! i)"
      using assms i by (simp add: is_table_row)
  next
    fix j assume "j < length (A ! i)"
    then have "j < n" using assms i by (simp add: is_table_row)
    with i show "A ! i ! j = B ! i ! j" by (rule assms(3))
  qed
qed

lemma tally_table: "is_table V V (tally V ps M)"
  by (auto simp: is_table_def tally_def)

lemma tally_cell:
  "i < V \<Longrightarrow> j < V \<Longrightarrow> tally V ps M ! i ! j =
     M ! i ! j + real (count_list (map (\<lambda>(r, c). (norm_idx V r, norm_idx V c)) ps) (i, j))"
  by (simp add: tally_def)

lemma tally_Nil: "is_table V V M \<Longrightarrow> tally V [] M = M"
  by (rule table_ext [of V V]) (simp_all add: tally_table tally_cell)

lemma add_all_Nil: "add_all [] M = Inr M"
  by (simp add: add_all_def)

lemma add_all_Cons:
  "add_all ((r, c) # ps) M = (case add_at M r c of Inl e \<Rightarrow> Inl e | Inr M' \<Rightarrow> add_all ps M')"
  by (simp add: add_all_def split: sum.splits)

lemma add_all_append:
  "add_all (ps @ qs) M = (case add_all ps M of Inl e \<Rightarrow> Inl e | Inr M' \<Rightarrow> add_all qs M')"
  by (simp add: add_all_def for_each_append split: sum.splits)

lemma add_all_tally:
  assumes "is_table V V M"
  shows "add_all ps M =
     (if \<forall>(r, c) \<in> set ps. valid_idx V r \<and> valid_idx V c then Inr (tally V ps M)
      else Inl IndexError)"
  using assms
proof (induction ps arbitrary: M)
  case Nil
  then show ?case by (simp add: add_all_Nil tally_Nil)
next
  case (Cons p ps)
  obtain r c where p: "p = (r, c)" by (cases p)
  show ?case
  proof (cases "valid_idx V r \<and> valid_idx V c")
    case False
    with Cons.prems p show ?thesis
      by (auto simp: add_all_Cons add_at_table)
  next
    case True
    let ?r = "norm_idx V r" and ?c = "norm_idx V c"
    let ?M = "M[?r := (M ! ?r)[?c := M ! ?r ! ?c + 1]]"
    from True have rc: "?r < V" "?c < V"
      by (simp_all add: norm_idx_less)
    have tab: "is_table V V ?M"
      using Cons.prems rc by (simp add: bump_table)
    have step: "add_all (p # ps) M = add_all ps ?M"
      using Cons.prems True p by (simp add: add_all_Cons add_at_table)
    have same: "tally V ps ?M = tally V (p # ps) M"
    proof (rule table_ext [of V V])
      fix i j assume "i < V" "j < V"
      then show "tally V ps ?M ! i ! j = tally V (p # ps) M ! i ! j"
        using bump_cell [OF Cons.prems rc, of i j] p
        by (auto simp: tally_cell)
    qed (simp_all add: tally_table)
    have "add_all (p # ps) M =
        (if \<forall>(r, c) \<in> set ps. valid_idx V r \<and> valid_idx V c then Inr (tally V (p # ps) M)
         else Inl IndexError)"
      by (simp only: step Cons.IH [OF tab] same)
    with True p show ?thesis
      by simp
  qed
qed

lemma count_position_inner:
  assumes "Suc i < length s"
  shows "count_position st en s i M = add_at M ((st # s) ! i) (s ! i)"
  using assms by (cases i) (auto simp: count_position_def split: sum.splits)

lemma count_position_final:
  assumes "Suc i = length s"
  shows "count_position st en s i M =
           (case add_at M ((st # s) ! i) (s ! i) of Inl e \<Rightarrow> Inl e | Inr M1 \<Rightarrow> add_at M1 (s ! i) en)"
  using assms by (cases i) (auto simp: count_position_def split: sum.splits)

lemma count_prefix:
  assumes "k < length s"
  shows "for_each (count_position st en s) [0..<k] M = add_all (take k (zip (st # s) s)) M"
  using assms
proof (induction k)
  case 0
  then show ?case by (simp add: add_all_Nil)
next
  case (Suc k)
  then have k: "k < length (zip (st # s) s)" and inner: "Suc k < length s"
    by simp_all
  have nth: "zip (st # s) s ! k = ((st # s) ! k, s ! k)"
    using Suc.prems by simp
  have single: "add_all [((st # s) ! k, s ! k)] M' = add_at M' ((st # s) ! k) (s ! k)" for M'
    by (simp add: add_all_Cons add_all_Nil split: sum.splits)
  show ?case
    using Suc.IH inner
    by (simp add: for_each_snoc take_Suc_conv_app_nth [OF k] nth add_all_append
        count_position_inner single del: nth_Cons_Suc split: sum.splits)
qed

lemma zip_longer:
  "length us = length vs \<Longrightarrow> zip (us @ ws) vs = zip us vs"
  by (simp add: zip_append1)

lemma zip_pad:
  assumes "s \<noteq> []"
  shows "zip (st # s) (s @ [en]) = zip (st # s) s @ [(last s, en)]"
proof -
  from assms obtain xs x where s: "s = xs @ [x]"
    by (cases s rule: rev_cases) auto
  have "zip ((st # xs) @ [x]) ((xs @ [x]) @ [en]) = zip (st # xs) (xs @ [x]) @ zip [x] [en]"
    by (rule zip_append) simp
  moreover have "zip ((st # xs) @ [x]) (xs @ [x]) = zip (st # xs) (xs @ [x])"
    by (rule zip_longer) simp
  ultimately show ?thesis
    by (simp add: s)
qed

lemma count_sentence_pairs:
  "count_sentence st en s M = add_all (pairs st en s) M"
proof (cases "s = []")
  case True
  then show ?thesis
    by (simp add: count_sentence_def pairs_def add_all_Nil)
next
  case False
  define n where "n = length s - 1"
  with False have n: "Suc n = length s" "n < length s"
    by (cases s; simp)+
  let ?zs = "zip (st # s) s"
  have range: "[0..<length s] = [0..<n] @ [n]"
    using n(1) by (metis upt_Suc_append zero_le)
  have "n < length ?zs"
    using n(2) by simp
  then have "take (Suc n) ?zs = take n ?zs @ [?zs ! n]"
    by (rule take_Suc_conv_app_nth)
  moreover have "take (Suc n) ?zs = ?zs"
    using n(1) by simp
  moreover have "?zs ! n = ((st # s) ! n, s ! n)"
    using n(2) by simp
  ultimately have front: "take n ?zs @ [((st # s) ! n, s ! n)] = ?zs"
    by simp
  have "last s = s ! n"
    using False by (simp add: last_conv_nth n_def)
  with zip_pad [OF False, of st en]
  have zs: "pairs st en s = ?zs @ [(s ! n, en)]"
    using False by (simp add: pairs_def)
  have "count_sentence st en s M =
      (case add_all (take n ?zs) M of Inl e \<Rightarrow> Inl e
       | Inr M0 \<Rightarrow> (case add_at M0 ((st # s) ! n) (s ! n) of Inl e \<Rightarrow> Inl e
           | Inr M1 \<Rightarrow> add_at M1 (s ! n) en))"
    by (simp add: count_sentence_def range for_each_snoc count_prefix [OF n(2)]
        count_position_final [OF n(1)] split: sum.splits)
  also have "\<dots> = add_all (take n ?zs @ [((st # s) ! n, s ! n)] @ [(s ! n, en)]) M"
    by (simp add: add_all_append add_all_Cons add_all_Nil split: sum.splits)
  also have "\<dots> = add_all (pairs st en s) M"
    by (simp only: append_assoc [symmetric] front zs)
  finally show ?thesis .
qed

lemma sentences_pairs:
  "for_each (count_sentence st en) ss M = add_all (all_pairs st en ss) M"
  by (induction ss arbitrary: M)
    (simp_all add: all_pairs_def count_sentence_pairs add_all_append add_all_Nil split: sum.splits)

lemma floor_is_table: "is_table V V (replicate V (replicate V sm))"
  by (simp add: is_table_def)

lemma bigram_counts_eq:
  "bigram_counts ss V st en sm =
     (if pairs_ok V (all_pairs st en ss)
      then Inr (tally V (all_pairs st en ss) (replicate V (replicate V sm)))
      else Inl IndexError)"
  by (simp add: bigram_counts_def sentences_pairs add_all_tally [OF floor_is_table] pairs_ok_def)

lemma pairs_members:
  assumes "(r, c) \<in> set (pairs st en s)"
  shows "(r = st \<or> r \<in> set s) \<and> (c = en \<or> c \<in> set s)"
proof -
  from assms have "(r, c) \<in> set (zip (st # s) (s @ [en]))"
    by (simp add: pairs_def split: if_splits)
  then have "r \<in> set (st # s)" "c \<in> set (s @ [en])"
    by (auto dest: set_zip_leftD set_zip_rightD)
  then show ?thesis by auto
qed

lemma all_pairs_members:
  assumes "(r, c) \<in> set (all_pairs st en ss)"
  shows "(r = st \<or> (\<exists>s \<in> set ss. r \<in> set s)) \<and> (c = en \<or> (\<exists>s \<in> set ss. c \<in> set s))"
  using assms by (auto simp: all_pairs_def dest: pairs_members)

lemma in_vocab_valid: "in_vocab V t \<Longrightarrow> valid_idx V t"
  by (simp add: in_vocab_def valid_idx_def)

lemma in_vocab_norm: "in_vocab V t \<Longrightarrow> norm_idx V t = nat t"
  by (simp add: in_vocab_def norm_idx_def)

lemma vocab_pairs_ok:
  assumes "\<forall>s \<in> set ss. \<forall>t \<in> set s. in_vocab V t" "in_vocab V st" "in_vocab V en"
  shows "pairs_ok V (all_pairs st en ss)"
  unfolding pairs_ok_def
proof (clarify)
  fix r c assume "(r, c) \<in> set (all_pairs st en ss)"
  from all_pairs_members [OF this] assms have "in_vocab V r" "in_vocab V c"
    by auto
  then show "valid_idx V r \<and> valid_idx V c"
    by (simp add: in_vocab_valid)
qed

lemma sum_list_positive:
  fixes xs :: "real list"
  shows "xs \<noteq> [] \<Longrightarrow> \<forall>x \<in> set xs. 0 < x \<Longrightarrow> 0 < sum_list xs"
proof (induction xs)
  case Nil
  then show ?case by simp
next
  case (Cons x xs)
  then show ?case
    by (cases xs) (auto intro: add_pos_pos)
qed

lemma sum_list_scaled:
  fixes xs :: "real list"
  shows "sum_list (map (\<lambda>x. x / s) xs) = sum_list xs / s"
  by (induction xs) (simp_all add: add_divide_distrib)

lemma normalize_rows_positive:
  assumes "\<forall>row \<in> set M. row \<noteq> [] \<and> (\<forall>x \<in> set row. 0 < x)"
  shows "normalize_rows M = Inr (map (\<lambda>row. map (\<lambda>x. x / sum_list row) row) M)"
    and "\<forall>row \<in> set (map (\<lambda>row. map (\<lambda>x. x / sum_list row) row) M).
           sum_list row = 1 \<and> (\<forall>x \<in> set row. 0 < x)"
proof -
  have pos: "0 < sum_list row" if "row \<in> set M" for row
    using assms that by (simp add: sum_list_positive)
  then have "\<not> list_ex (\<lambda>row. row \<noteq> [] \<and> sum_list row = 0) M"
    by (fastforce simp: list_ex_iff)
  then show "normalize_rows M = Inr (map (\<lambda>row. map (\<lambda>x. x / sum_list row) row) M)"
    by (simp add: normalize_rows_def)
  show "\<forall>row \<in> set (map (\<lambda>row. map (\<lambda>x. x / sum_list row) row) M).
           sum_list row = 1 \<and> (\<forall>x \<in> set row. 0 < x)"
  proof
    fix row' assume "row' \<in> set (map (\<lambda>row. map (\<lambda>x. x / sum_list row) row) M)"
    then obtain row where row: "row \<in> set M" "row' = map (\<lambda>x. x / sum_list row) row"
      by auto
    from pos [OF row(1)] have "sum_list row' = 1"
      by (simp add: row(2) sum_list_scaled)
    moreover have "\<forall>x \<in> set row'. 0 < x"
      using assms row pos [OF row(1)] by auto
    ultimately show "sum_list row' = 1 \<and> (\<forall>x \<in> set row'. 0 < x)" ..
  qed
qed



subsection \<open>The probability table\<close>



lemma all_pairs_mset:
  assumes "mset ss = mset ss'"
  shows "mset (all_pairs st en ss) = mset (all_pairs st en ss')"
proof -
  have "mset (all_pairs st en xs) = sum_mset (image_mset (\<lambda>s. mset (pairs st en s)) (mset xs))" for xs
    by (induction xs) (simp_all add: all_pairs_def)
  with assms show ?thesis by simp
qed

lemma pairs_ok_mset:
  assumes "mset ps = mset qs"
  shows "pairs_ok V ps = pairs_ok V qs"
  using mset_eq_setD [OF assms] by (simp add: pairs_ok_def)

lemma tally_mset:
  assumes "mset ps = mset qs"
  shows "tally V ps M = tally V qs M"
proof -
  let ?g = "\<lambda>(r, c). (norm_idx V r, norm_idx V c)"
  have "mset (map ?g ps) = mset (map ?g qs)"
    using assms by simp
  then have "count_list (map ?g ps) x = count_list (map ?g qs) x" for x
    by (metis count_mset)
  then show ?thesis
    by (simp add: tally_def)
qed

text \<open>
  C8. Two orderings of the same multiset of sentences give the same result of
  \<open>get_bigram_probs\<close>: the same table, or the same failure.
\<close>

theorem get_bigram_probs_permutation:
  assumes "mset sentences = mset sentences'"
  shows "get_bigram_probs sentences V start_idx end_idx smoothing =
         get_bigram_probs sentences' V start_idx end_idx smoothing"
proof -
  have same: "mset (all_pairs start_idx end_idx sentences) = mset (all_pairs start_idx end_idx sentences')"
    using assms by (rule all_pairs_mset)
  have "bigram_counts sentences V start_idx end_idx smoothing =
        bigram_counts sentences' V start_idx end_idx smoothing"
    unfolding bigram_counts_eq
    by (simp only: pairs_ok_mset [OF same] tally_mset [OF same])
  then show ?thesis
    by (simp add: get_bigram_probs_def)
qed

theorem get_bigram_probs_permutation_witness:
  "mset [[2, 3], [3 :: int]] = mset [[3], [2, 3]]
   \<and> get_bigram_probs [[2, 3], [3]] 4 0 1 1 = get_bigram_probs [[3], [2, 3]] 4 0 1 1"
  using get_bigram_probs_permutation
    [where sentences = "[[2, 3], [3]]" and sentences' = "[[3], [2, 3]]" and V = 4
       and start_idx = 0 and end_idx = 1 and smoothing = 1]
  by simp

lemma vocab_nat_inj: "in_vocab V a \<Longrightarrow> in_vocab V b \<Longrightarrow> nat a = nat b \<Longrightarrow> a = b"
  unfolding in_vocab_def by arith

lemma vocab_nat_less: "in_vocab V a \<Longrightarrow> nat a < V"
  unfolding in_vocab_def by arith

lemma count_none:
  assumes "\<forall>(r, c) \<in> set ps. in_vocab V r \<and> r \<noteq> e" "in_vocab V e"
  shows "count_list (map (\<lambda>(r, c). (norm_idx V r, norm_idx V c)) ps) (nat e, j) = 0"
proof -
  have "(nat e, j) \<notin> set (map (\<lambda>(r, c). (norm_idx V r, norm_idx V c)) ps)"
  proof
    assume "(nat e, j) \<in> set (map (\<lambda>(r, c). (norm_idx V r, norm_idx V c)) ps)"
    then obtain r c where rc: "(r, c) \<in> set ps" "norm_idx V r = nat e"
      by auto
    with assms(1) have "in_vocab V r" "r \<noteq> e" by auto
    with rc(2) assms(2) show False
      by (auto simp: in_vocab_norm dest: vocab_nat_inj)
  qed
  then show ?thesis
    by (simp add: count_list_0_iff)
qed



subsection \<open>Boundary transitions of one sentence\<close>

lemma count_absent:
  assumes "\<forall>(r, c) \<in> set ps. in_vocab V c \<and> c \<noteq> e" "in_vocab V e"
  shows "count_list (map (\<lambda>(r, c). (norm_idx V r, norm_idx V c)) ps) (i, nat e) = 0"
proof -
  have "(i, nat e) \<notin> set (map (\<lambda>(r, c). (norm_idx V r, norm_idx V c)) ps)"
  proof
    assume "(i, nat e) \<in> set (map (\<lambda>(r, c). (norm_idx V r, norm_idx V c)) ps)"
    then obtain r c where rc: "(r, c) \<in> set ps" "norm_idx V c = nat e"
      by auto
    with assms(1) have "in_vocab V c" "c \<noteq> e" by auto
    with rc(2) assms(2) show False
      by (auto simp: in_vocab_norm dest: vocab_nat_inj)
  qed
  then show ?thesis
    by (simp add: count_list_0_iff)
qed

text \<open>
  C2, as amended. A sentence of length at least 1 whose tokens are ordinary ids (in
  \<open>[0, V)\<close>, none of them \<open>start_idx\<close> or \<open>end_idx\<close>) adds, to any \<open>V \<times> V\<close> table, exactly one
  count in row \<open>start_idx\<close>, at the column of its first token, and exactly one count in column
  \<open>end_idx\<close>, at the row of its last token.
\<close>

theorem count_sentence_boundaries:
  assumes "is_table V V M" "sentence \<noteq> []"
    and "\<forall>t \<in> set sentence. in_vocab V t \<and> t \<noteq> start_idx \<and> t \<noteq> end_idx"
    and "in_vocab V start_idx" "in_vocab V end_idx"
  shows "\<exists>M'. count_sentence start_idx end_idx sentence M = Inr M'
     \<and> (\<forall>j < V. M' ! nat start_idx ! j =
           M ! nat start_idx ! j + (if j = nat (hd sentence) then 1 else 0))
     \<and> (\<forall>i < V. M' ! i ! nat end_idx =
           M ! i ! nat end_idx + (if i = nat (last sentence) then 1 else 0))"
proof -
  let ?g = "\<lambda>(r, c). (norm_idx V r, norm_idx V c)"
  let ?ps = "pairs start_idx end_idx sentence"
  let ?M = "tally V ?ps M"
  have vocab: "\<forall>t \<in> set sentence. in_vocab V t"
    using assms(3) by simp
  have "all_pairs start_idx end_idx [sentence] = ?ps"
    by (simp add: all_pairs_def)
  with vocab_pairs_ok [of "[sentence]" V start_idx end_idx] vocab assms(4,5)
  have "pairs_ok V ?ps"
    by simp
  then have run: "count_sentence start_idx end_idx sentence M = Inr ?M"
    using assms(1) by (simp add: count_sentence_pairs add_all_tally pairs_ok_def)
  have st: "nat start_idx < V" and en: "nat end_idx < V"
    using assms(4,5) by (simp_all add: vocab_nat_less)
  have hd_in: "in_vocab V (hd sentence)" and last_in: "in_vocab V (last sentence)"
    using assms(2) vocab by simp_all
  have row: "?M ! nat start_idx ! j = M ! nat start_idx ! j + (if j = nat (hd sentence) then 1 else 0)"
    if "j < V" for j
  proof -
    have split: "?ps = (start_idx, hd sentence) # zip sentence (tl sentence @ [end_idx])"
      using assms(2) by (cases sentence) (simp_all add: pairs_def)
    have "\<forall>(r, c) \<in> set (zip sentence (tl sentence @ [end_idx])). in_vocab V r \<and> r \<noteq> start_idx"
      using assms(3) by (auto dest: set_zip_leftD)
    then have "count_list (map ?g (zip sentence (tl sentence @ [end_idx]))) (nat start_idx, j) = 0"
      using assms(4) by (rule count_none)
    then have "count_list (map ?g ?ps) (nat start_idx, j) = (if j = nat (hd sentence) then 1 else 0)"
      using hd_in assms(4) by (auto simp: split in_vocab_norm)
    with st that show ?thesis
      by (simp add: tally_cell)
  qed
  have col: "?M ! i ! nat end_idx = M ! i ! nat end_idx + (if i = nat (last sentence) then 1 else 0)"
    if "i < V" for i
  proof -
    have split: "?ps = zip (start_idx # sentence) sentence @ [(last sentence, end_idx)]"
      using assms(2) by (simp add: pairs_def zip_pad)
    have "\<forall>(r, c) \<in> set (zip (start_idx # sentence) sentence). in_vocab V c \<and> c \<noteq> end_idx"
      using assms(3) by (auto dest: set_zip_rightD)
    then have "count_list (map ?g (zip (start_idx # sentence) sentence)) (i, nat end_idx) = 0"
      using assms(5) by (rule count_absent)
    then have "count_list (map ?g ?ps) (i, nat end_idx) = (if i = nat (last sentence) then 1 else 0)"
      using last_in assms(5) by (auto simp: split in_vocab_norm)
    with en that show ?thesis
      by (simp add: tally_cell)
  qed
  from run row col show ?thesis
    by blast
qed

theorem count_sentence_boundaries_witness:
  "is_table 4 4 [[1, 1, 1, 1], [1, 1, 1, 1], [1, 1, 1, 1], [1, 1, 1, 1]] \<and> [2, 3 :: int] \<noteq> []
   \<and> in_vocab 4 0 \<and> in_vocab 4 1
   \<and> (\<exists>M'. count_sentence 0 1 [2, 3] [[1, 1, 1, 1], [1, 1, 1, 1], [1, 1, 1, 1], [1, 1, 1, 1]] = Inr M'
        \<and> M' ! nat 0 ! 2 = 2 \<and> M' ! nat 0 ! 3 = 1 \<and> M' ! 3 ! nat 1 = 2 \<and> M' ! 2 ! nat 1 = 1)"
proof -
  let ?M = "[[1, 1, 1, 1], [1, 1, 1, 1], [1, 1, 1, 1], [1, 1, 1, 1 :: real]]"
  have tab: "is_table 4 4 ?M"
    by (simp add: is_table_def)
  from count_sentence_boundaries [where V = 4 and M = ?M and sentence = "[2, 3]"
      and start_idx = 0 and end_idx = 1, OF tab]
  obtain M' where "count_sentence 0 1 [2, 3] ?M = Inr M'"
    and row: "\<forall>j < 4. M' ! nat 0 ! j = ?M ! nat 0 ! j + (if j = nat (hd [2, 3]) then 1 else 0)"
    and col: "\<forall>i < 4. M' ! i ! nat 1 = ?M ! i ! nat 1 + (if i = nat (last [2, 3]) then 1 else 0)"
    by (auto simp: in_vocab_def)
  moreover from row have "M' ! nat 0 ! 2 = 2" "M' ! nat 0 ! 3 = 1"
    by (simp_all)
  moreover from col have "M' ! 3 ! nat 1 = 2" "M' ! 2 ! nat 1 = 1"
    by (simp_all)
  ultimately show ?thesis
    using tab by (simp add: in_vocab_def)
qed


text \<open>
  C2 as stated fails for the sentence of length 0: the loop over its positions runs no
  iteration, and every cell keeps the smoothing floor.
\<close>

theorem empty_sentence_counterexample:
  "bigram_counts [[]] 2 0 1 1 = Inr [[1, 1], [1, 1]]"
  by (simp add: bigram_counts_def count_sentence_def numeral_2_eq_2)

subsection \<open>Smoothing that is not positive\<close>





subsection \<open>Softmax\<close>

lemma exp_shift_sum:
  fixes c :: real
  shows "sum_list (map (\<lambda>x. exp (x - c)) row) = sum_list (map exp row) / exp c"
  by (induction row) (simp_all add: exp_diff add_divide_distrib)

lemma exp_shift_normalised:
  fixes c :: real
  shows "map (\<lambda>y. y / sum_list (map (\<lambda>x. exp (x - c)) row)) (map (\<lambda>x. exp (x - c)) row) =
         map (\<lambda>x. exp x / sum_list (map exp row)) row"
proof -
  have point: "exp (x - c) / (sum_list (map exp row) / exp c) = exp x / sum_list (map exp row)" for x
    by (simp add: exp_diff)
  show ?thesis
    unfolding exp_shift_sum map_map comp_def point ..
qed

lemma softmax_row_canonical:
  "softmax_row row = map (\<lambda>x. exp x / sum_list (map exp row)) row"
  by (simp only: softmax_row_def Let_def exp_shift_normalised)

lemma table_has_entries:
  assumes "is_table m n a" "0 < m" "0 < n"
  shows "concat a \<noteq> []"
proof -
  from assms(1,2) obtain row rest where a: "a = row # rest"
    by (cases a) (auto simp: is_table_def)
  with assms(1,3) have "row \<noteq> []"
    by (auto simp: is_table_def)
  with a show ?thesis by simp
qed

lemma softmax_eq:
  assumes "is_table m n a" "0 < m" "0 < n"
  shows "softmax a = Inr (map (\<lambda>row. map (\<lambda>x. exp x / sum_list (map exp row)) row) a)"
proof -
  define mx where "mx = Max (set (concat a))"
  let ?E = "map (map exp) (map (map (\<lambda>x. x - mx)) a)"
  have rows: "\<forall>row \<in> set ?E. row \<noteq> [] \<and> (\<forall>x \<in> set row. 0 < x)"
    using assms(1,3) by (auto simp: is_table_def)
  have ne: "concat a \<noteq> []"
    using assms by (rule table_has_entries)
  have "softmax a = normalize_rows ?E"
    by (simp only: softmax_def ne if_False Let_def mx_def)
  also have "\<dots> = Inr (map (\<lambda>row. map (\<lambda>x. x / sum_list row) row) ?E)"
    by (rule normalize_rows_positive(1) [OF rows])
  also have "map (\<lambda>row. map (\<lambda>x. x / sum_list row) row) ?E =
      map (\<lambda>row. map (\<lambda>y. y / sum_list (map (\<lambda>x. exp (x - mx)) row)) (map (\<lambda>x. exp (x - mx)) row)) a"
    by (simp add: comp_def)
  also have "\<dots> = map (\<lambda>row. map (\<lambda>x. exp x / sum_list (map exp row)) row) a"
    by (simp only: exp_shift_normalised)
  finally show ?thesis .
qed

lemma canonical_row_distribution:
  fixes row :: "real list"
  assumes "row \<noteq> []"
  shows "sum_list (map (\<lambda>x. exp x / sum_list (map exp row)) row) = 1"
    and "\<forall>y \<in> set (map (\<lambda>x. exp x / sum_list (map exp row)) row). 0 < y"
proof -
  have pos: "0 < sum_list (map exp row)"
    using assms sum_list_positive [of "map exp row"] by simp
  have "sum_list (map (\<lambda>x. exp x / sum_list (map exp row)) row) =
        sum_list (map exp row) / sum_list (map exp row)"
    using sum_list_scaled [of "sum_list (map exp row)" "map exp row"] by (simp add: comp_def)
  with pos show "sum_list (map (\<lambda>x. exp x / sum_list (map exp row)) row) = 1"
    by simp
  from pos show "\<forall>y \<in> set (map (\<lambda>x. exp x / sum_list (map exp row)) row). 0 < y"
    by auto
qed

lemma softmax_ok:
  assumes "is_table m n a" "0 < m" "0 < n"
  shows "softmax a = Inr (softmax_per_row a)"
    and "is_table m n (softmax_per_row a)"
    and "\<forall>row \<in> set (softmax_per_row a). \<forall>x \<in> set row. 0 < x"
    and "\<forall>row \<in> set (softmax_per_row a). sum_list row = 1"
proof -
  have ref: "softmax_per_row a = map (\<lambda>row. map (\<lambda>x. exp x / sum_list (map exp row)) row) a"
    by (simp add: softmax_per_row_def softmax_row_canonical)
  show "softmax a = Inr (softmax_per_row a)"
    by (simp only: softmax_eq [OF assms] ref)
  have row_facts: "length p = n \<and> sum_list p = 1 \<and> (\<forall>x \<in> set p. 0 < x)"
    if "p \<in> set (softmax_per_row a)" for p
  proof -
    from that obtain row where row: "row \<in> set a" "p = map (\<lambda>x. exp x / sum_list (map exp row)) row"
      unfolding ref by auto
    with assms(1,3) have ne: "row \<noteq> []" and len: "length row = n"
      by (auto simp: is_table_def)
    have "length p = n"
      by (simp add: row(2) len)
    moreover have "sum_list p = 1"
      unfolding row(2) by (rule canonical_row_distribution(1) [OF ne])
    moreover have "\<forall>x \<in> set p. 0 < x"
      unfolding row(2) by (rule canonical_row_distribution(2) [OF ne])
    ultimately show ?thesis
      by (intro conjI)
  qed
  have "length (softmax_per_row a) = m"
    using assms(1) by (simp add: softmax_per_row_def is_table_def)
  with row_facts show "is_table m n (softmax_per_row a)"
    by (simp add: is_table_def)
  from row_facts show "\<forall>row \<in> set (softmax_per_row a). \<forall>x \<in> set row. 0 < x"
    by blast
  from row_facts show "\<forall>row \<in> set (softmax_per_row a). sum_list row = 1"
    by blast
qed

subsection \<open>One-hot training examples\<close>

lemma and_then_Inr: "and_then (Inr x) f = f x"
  by (simp add: and_then_def)

lemma and_then_Inl: "and_then (Inl e) f = Inl e"
  by (simp add: and_then_def)

lemma np_index_vocab: "in_vocab V t \<Longrightarrow> np_index V t = Inr (nat t)"
  by (simp add: np_index_def in_vocab_def)

lemma np_index_nat: "k < n \<Longrightarrow> np_index n (int k) = Inr k"
  by (simp add: np_index_def)

lemma one_hot_update:
  assumes "in_vocab V t"
  shows "(replicate V 0)[nat t := 1] = one_hot V t"
proof (rule nth_equalityI)
  show "length ((replicate V (0::real))[nat t := 1]) = length (one_hot V t)"
    by (simp add: one_hot_def)
next
  fix i assume "i < length ((replicate V (0::real))[nat t := 1])"
  then have i: "i < V" by simp
  have "i = nat t \<longleftrightarrow> int i = t"
    using assms by (auto simp: in_vocab_def)
  with i show "(replicate V 0)[nat t := 1] ! i = one_hot V t ! i"
    by (auto simp: one_hot_def nth_list_update)
qed

lemma set_ones_prefix:
  assumes "\<forall>t \<in> set idxs. in_vocab V t" "k \<le> length idxs"
  shows "set_ones (zeros (length idxs) V) (map int [0..<k]) (take k idxs) =
           Inr (map (one_hot V) (take k idxs) @ replicate (length idxs - k) (replicate V 0))"
  using assms(2)
proof (induction k)
  case 0
  then show ?case
    by (simp add: set_ones_def zeros_def)
next
  case (Suc k)
  let ?m = "length idxs"
  let ?z = "replicate V (0::real)"
  let ?xs = "map (one_hot V) (take k idxs)"
  let ?A = "?xs @ replicate (?m - k) ?z"
  from Suc.prems have k: "k < ?m" by simp
  then have t: "in_vocab V (idxs ! k)"
    using assms(1) by simp
  have rest: "replicate (?m - k) ?z = ?z # replicate (?m - Suc k) ?z"
    using k by (cases "?m - k") (simp_all add: Suc_diff_Suc)
  have lenxs: "length ?xs = k"
    using k by simp
  have zipped: "zip (map int [0..<Suc k]) (take (Suc k) idxs) =
      zip (map int [0..<k]) (take k idxs) @ [(int k, idxs ! k)]"
    using k by (simp add: take_Suc_conv_app_nth)
  have lenA: "length ?A = ?m"
    using k by simp
  have rowk: "?A ! k = ?z"
    using lenxs by (simp add: rest nth_append)
  have upd: "?A[k := v] = ?xs @ v # replicate (?m - Suc k) ?z" for v
    using lenxs by (simp add: rest list_update_append)
  have body: "and_then (np_index (length ?A) (int k)) (\<lambda>r'.
         and_then (np_index (length (?A ! r')) (idxs ! k)) (\<lambda>c'.
         Inr (?A[r' := (?A ! r')[c' := 1]]))) =
       Inr (map (one_hot V) (take (Suc k) idxs) @ replicate (?m - Suc k) ?z)"
    using k
    by (simp only: lenA np_index_nat [OF k] and_then_Inr rowk length_replicate
        np_index_vocab [OF t] upd one_hot_update [OF t])
       (simp add: take_Suc_conv_app_nth)
  define f where "f = (\<lambda>(r, c) a.
         and_then (np_index (length a) r) (\<lambda>r'.
         and_then (np_index (length (a ! r')) c) (\<lambda>c'.
         Inr (a[r' := (a ! r')[c' := (1::real)]]))))"
  have unfold: "set_ones a rows cols = for_each f (zip rows cols) a" for a rows cols
    by (simp only: set_ones_def f_def)
  from Suc.IH k have IH: "for_each f (zip (map int [0..<k]) (take k idxs)) (zeros ?m V) = Inr ?A"
    by (simp only: unfold less_imp_le)
  have last_step: "f (int k, idxs ! k) ?A =
       Inr (map (one_hot V) (take (Suc k) idxs) @ replicate (?m - Suc k) ?z)"
    by (simp only: f_def prod.case body)
  have "set_ones (zeros ?m V) (map int [0..<Suc k]) (take (Suc k) idxs) =
        for_each f (zip (map int [0..<k]) (take k idxs) @ [(int k, idxs ! k)]) (zeros ?m V)"
    by (simp only: unfold zipped)
  also have "\<dots> = f (int k, idxs ! k) ?A"
    by (simp only: for_each_snoc IH sum.case)
  finally show ?case
    by (simp only: last_step)
qed

lemma set_ones_one_hot:
  assumes "\<forall>t \<in> set idxs. in_vocab V t"
  shows "set_ones (zeros (length idxs) V) (map int [0..<length idxs]) idxs =
           Inr (map (one_hot V) idxs)"
  using set_ones_prefix [OF assms, of "length idxs"] by simp

lemma one_hot_pairs_eq:
  assumes "\<forall>t \<in> set sentence. in_vocab V t" "in_vocab V start_idx" "in_vocab V end_idx"
  shows "one_hot_pairs V start_idx end_idx sentence =
           Inr (map (one_hot V) (start_idx # sentence), map (one_hot V) (sentence @ [end_idx]))"
proof -
  have ins: "\<forall>t \<in> set (start_idx # sentence). in_vocab V t"
    and tgs: "\<forall>t \<in> set (sentence @ [end_idx]). in_vocab V t"
    using assms by simp_all
  have "set_ones (zeros (length sentence + 1) V) (map int [0..<length sentence + 1]) (start_idx # sentence) =
          Inr (map (one_hot V) (start_idx # sentence))"
    using set_ones_one_hot [OF ins] by simp
  moreover have "set_ones (zeros (length sentence + 1) V) (map int [0..<length sentence + 1]) (sentence @ [end_idx]) =
          Inr (map (one_hot V) (sentence @ [end_idx]))"
    using set_ones_one_hot [OF tgs] by simp
  ultimately show ?thesis
    by (simp add: one_hot_pairs_def Let_def and_then_Inr)
qed

text \<open>
  C5. For a sentence of \<open>n\<close> tokens in \<open>[0, V)\<close> (the boundary ids in \<open>[0, V)\<close> too) the trainer
  builds \<open>n + 1\<close> rows of inputs and of targets from the padded sequence
  \<open>[start_idx] + sentence + [end_idx]\<close>: row \<open>k\<close> of the inputs is the one-hot vector of
  \<open>padded[k]\<close>, row \<open>k\<close> of the targets that of \<open>padded[k + 1]\<close>, for \<open>k = 0..n\<close>.
\<close>

theorem one_hot_examples:
  assumes "\<forall>t \<in> set sentence. in_vocab V t" "in_vocab V start_idx" "in_vocab V end_idx"
  shows "\<exists>inputs targets. one_hot_pairs V start_idx end_idx sentence = Inr (inputs, targets)
     \<and> length inputs = length sentence + 1 \<and> length targets = length sentence + 1
     \<and> (\<forall>k \<le> length sentence.
           inputs ! k = one_hot V (([start_idx] @ sentence @ [end_idx]) ! k)
         \<and> targets ! k = one_hot V (([start_idx] @ sentence @ [end_idx]) ! (k + 1)))"
proof -
  let ?inputs = "map (one_hot V) (start_idx # sentence)"
  let ?targets = "map (one_hot V) (sentence @ [end_idx])"
  have "?inputs ! k = one_hot V (([start_idx] @ sentence @ [end_idx]) ! k)
      \<and> ?targets ! k = one_hot V (([start_idx] @ sentence @ [end_idx]) ! (k + 1))"
    if "k \<le> length sentence" for k
  proof -
    have "(start_idx # sentence @ [end_idx]) ! k = (start_idx # sentence) ! k"
      using that by (metis append_Cons length_Cons less_Suc_eq_le nth_append)
    moreover have "k < length (start_idx # sentence)" "k < length (sentence @ [end_idx])"
      using that by simp_all
    ultimately show ?thesis
      by (simp only: nth_map append_Cons append_Nil) simp
  qed
  then show ?thesis
    using one_hot_pairs_eq [OF assms] by simp
qed

theorem one_hot_examples_witness:
  "in_vocab 4 0 \<and> in_vocab 4 1
   \<and> one_hot_pairs 4 0 1 [2, 3] =
       Inr ([[1, 0, 0, 0], [0, 0, 1, 0], [0, 0, 0, 1]], [[0, 0, 1, 0], [0, 0, 0, 1], [0, 1, 0, 0]])"
proof -
  have hyps: "\<forall>t \<in> set [2, 3]. in_vocab 4 t" "in_vocab 4 0" "in_vocab 4 1"
    by (simp_all add: in_vocab_def)
  from one_hot_examples [OF hyps]
  obtain inputs targets where r: "one_hot_pairs 4 0 1 [2, 3] = Inr (inputs, targets)"
    and len: "length inputs = 3" "length targets = 3"
    and rows: "\<forall>k \<le> 2. inputs ! k = one_hot 4 (([0] @ [2, 3] @ [1]) ! k)
         \<and> targets ! k = one_hot 4 (([0] @ [2, 3] @ [1]) ! (k + 1))"
    by auto
  have oh: "one_hot 4 0 = [1, 0, 0, 0]" "one_hot 4 1 = [0, 1, 0, 0]"
    "one_hot 4 2 = [0, 0, 1, 0]" "one_hot 4 3 = [0, 0, 0, 1]"
    by (simp_all add: one_hot_def upt_rec)
  from rows have "inputs ! 0 = [1, 0, 0, 0]" "inputs ! 1 = [0, 0, 1, 0]" "inputs ! 2 = [0, 0, 0, 1]"
    "targets ! 0 = [0, 0, 1, 0]" "targets ! 1 = [0, 0, 0, 1]" "targets ! 2 = [0, 1, 0, 0]"
    using oh by (auto simp: numeral_2_eq_2 le_Suc_eq)
  with len have "inputs = [[1, 0, 0, 0], [0, 0, 1, 0], [0, 0, 0, 1]]"
    "targets = [[0, 0, 1, 0], [0, 0, 0, 1], [0, 1, 0, 0]]"
    by (auto simp: numeral_3_eq_3 numeral_2_eq_2 length_Suc_conv)
  with r hyps show ?thesis
    by simp
qed

subsection \<open>The training step on well-shaped arguments\<close>

lemma ncols_table: "is_table m n a \<Longrightarrow> 0 < m \<Longrightarrow> ncols a = n"
  by (cases a) (auto simp: is_table_def ncols_def)

lemma matmul_table:
  assumes "is_table m k a" "is_table k n b" "0 < k"
  shows "is_table m n (matmul a b)"
  using assms(1) ncols_table [OF assms(2,3)]
  by (auto simp: is_table_def matmul_def)

lemma dot_ok:
  assumes "is_table m k a" "is_table k n b" "0 < m"
  shows "dot a b = Inr (matmul a b)"
proof -
  have "ncols a = k" using assms(1,3) by (rule ncols_table)
  moreover have "length b = k" using assms(2) by (simp add: is_table_def)
  ultimately show ?thesis by (simp add: dot_def)
qed

lemma map2_table:
  assumes "is_table m n a" "is_table m n b"
  shows "is_table m n (map2 (map2 f) a b)"
proof -
  have "length (map2 f x y) = n" if "(x, y) \<in> set (zip a b)" for x y
  proof -
    from that have "x \<in> set a" "y \<in> set b"
      by (auto dest: set_zip_leftD set_zip_rightD)
    with assms show ?thesis
      by (simp add: is_table_def)
  qed
  with assms show ?thesis
    by (auto simp: is_table_def)
qed

lemma elementwise_ok:
  assumes "is_table m n a" "is_table m n b"
  shows "elementwise f a b = Inr (map2 (map2 f) a b)"
proof (cases "0 < m")
  case True
  with assms show ?thesis
    by (simp add: elementwise_def ncols_table) (simp add: is_table_def)
next
  case False
  with assms have "a = []" "b = []"
    by (simp_all add: is_table_def)
  then show ?thesis
    by (simp add: elementwise_def)
qed

lemma transposed_table:
  assumes "is_table m n a" "0 < m"
  shows "is_table n m (transposed a)"
  using assms by (auto simp: is_table_def transposed_def ncols_table [OF assms])

lemma scaled_table: "is_table m n a \<Longrightarrow> is_table m n (scaled lr a)"
  by (auto simp: is_table_def scaled_def)

lemma one_hot_table: "is_table (length idxs) V (map (one_hot V) idxs)"
  by (auto simp: is_table_def one_hot_def)

lemma np_log_ok:
  assumes "\<forall>row \<in> set a. \<forall>x \<in> set row. 0 < x"
  shows "np_log a = Inr (map (map ln) a)"
proof -
  from assms have "\<not> list_ex (list_ex (\<lambda>x. x \<le> 0)) a"
    by (fastforce simp: list_ex_iff)
  then show ?thesis by (simp add: np_log_def)
qed

lemma map_map_table: "is_table m n a \<Longrightarrow> is_table m n (map (map f) a)"
  by (auto simp: is_table_def)

lemma mean_cross_entropy_ok:
  assumes "is_table m n targets" "is_table m n predictions"
    and "\<forall>row \<in> set predictions. \<forall>x \<in> set row. 0 < x" "0 < rows"
  shows "mean_cross_entropy targets predictions rows =
     Inr (- sum_list (concat (map2 (map2 (*)) targets (map (map ln) predictions))) / real rows)"
  using assms(4)
  by (simp add: mean_cross_entropy_def np_log_ok [OF assms(3)] and_then_Inr
      elementwise_ok [OF assms(1) map_map_table [OF assms(2)]])

lemma forward_loss_ok:
  assumes "is_table m V inputs" "is_table m V targets" "is_table V V B" "0 < m" "0 < V"
  shows "and_then (dot inputs B) (\<lambda>logits.
         and_then (softmax logits) (\<lambda>predictions.
         and_then (mean_cross_entropy targets predictions m) k)) =
       k (- sum_list (concat (map2 (map2 (*)) targets
              (map (map ln) (softmax_per_row (matmul inputs B))))) / real m)"
proof -
  have L: "is_table m V (matmul inputs B)"
    using assms(1,3,5) by (rule matmul_table)
  note sm = softmax_ok [OF L assms(4,5)]
  show ?thesis
    by (simp only: dot_ok [OF assms(1,3,4)] and_then_Inr sm(1)
        mean_cross_entropy_ok [OF assms(2) sm(2,3) assms(4)])
qed

lemma train_step_result:
  assumes "is_table V V W"
    and "\<forall>t \<in> set sentence. in_vocab V t" "in_vocab V start_idx" "in_vocab V end_idx"
  shows "train_step V start_idx end_idx lr W sentence =
     (let inputs = map (one_hot V) (start_idx # sentence);
          targets = map (one_hot V) (sentence @ [end_idx]);
          predictions = softmax_per_row (matmul inputs W)
      in Inr \<lparr>r_W = map2 (map2 (-)) W
                   (scaled lr (matmul (transposed inputs) (map2 (map2 (-)) predictions targets))),
              r_loss = - sum_list (concat (map2 (map2 (*)) targets (map (map ln) predictions)))
                         / real (length sentence + 1),
              r_inputs = inputs, r_targets = targets, r_predictions = predictions\<rparr>)"
proof -
  define m where "m = length sentence + 1"
  define inputs where "inputs = map (one_hot V) (start_idx # sentence)"
  define targets where "targets = map (one_hot V) (sentence @ [end_idx])"
  define L where "L = matmul inputs W"
  define P where "P = softmax_per_row L"
  define D where "D = map2 (map2 (-)) P targets"
  define G where "G = matmul (transposed inputs) D"
  have V: "0 < V"
    using assms(3) by (simp add: in_vocab_def)
  have m: "0 < m"
    by (simp add: m_def)
  have inputs: "is_table m V inputs"
    using one_hot_table [of "start_idx # sentence" V] by (simp add: inputs_def m_def)
  have targets: "is_table m V targets"
    using one_hot_table [of "sentence @ [end_idx]" V] by (simp add: targets_def m_def)
  have L: "is_table m V L"
    unfolding L_def using inputs assms(1) V by (rule matmul_table)
  note sm = softmax_ok [OF L m V, folded P_def]
  have D: "is_table m V D"
    unfolding D_def using sm(2) targets by (rule map2_table)
  have inT: "is_table V m (transposed inputs)"
    using inputs m by (rule transposed_table)
  have G: "is_table V V G"
    unfolding G_def using inT D m by (rule matmul_table)
  have S: "is_table V V (scaled lr G)"
    using G by (rule scaled_table)
  have "train_step V start_idx end_idx lr W sentence =
      Inr \<lparr>r_W = map2 (map2 (-)) W (scaled lr G),
           r_loss = - sum_list (concat (map2 (map2 (*)) targets (map (map ln) P))) / real m,
           r_inputs = inputs, r_targets = targets, r_predictions = P\<rparr>"
    unfolding train_step_def
    by (simp only: one_hot_pairs_eq [OF assms(2-4)] and_then_Inr prod.case
        inputs_def [symmetric] targets_def [symmetric]
        dot_ok [OF inputs assms(1) m] L_def [symmetric] sm(1)
        elementwise_ok [OF sm(2) targets] D_def [symmetric]
        dot_ok [OF inT D V] G_def [symmetric]
        elementwise_ok [OF assms(1) S] m_def [symmetric]
        mean_cross_entropy_ok [OF targets sm(2,3) m])
  then show ?thesis
    by (simp only: Let_def inputs_def targets_def L_def P_def D_def G_def m_def)
qed

subsection \<open>Zero weights\<close>

lemma zeros_table: "is_table m n (zeros m n)"
  by (simp add: is_table_def zeros_def)

lemma sum_list_all_zero:
  fixes f :: "'a \<Rightarrow> real"
  shows "\<forall>x \<in> set xs. f x = 0 \<Longrightarrow> sum_list (map f xs) = 0"
  by (induction xs) simp_all

lemma matmul_zeros:
  assumes "0 < V"
  shows "matmul a (zeros V V) = zeros (length a) V"
proof -
  have cols: "ncols (zeros V V) = V"
    using zeros_table assms by (rule ncols_table)
  have len: "length (zeros V V) = V"
    by (simp add: zeros_def)
  have entry: "sum_list (map (\<lambda>k. row ! k * zeros V V ! k ! j) [0..<V]) = 0" if "j < V" for row j
    using that by (intro sum_list_all_zero) (simp add: zeros_def)
  have "map (\<lambda>j. sum_list (map (\<lambda>k. row ! k * zeros V V ! k ! j) [0..<V])) [0..<V] = replicate V 0" for row
  proof -
    have "\<forall>j \<in> set [0..<V]. sum_list (map (\<lambda>k. row ! k * zeros V V ! k ! j) [0..<V]) = 0"
      using entry by simp
    then have "map (\<lambda>j. sum_list (map (\<lambda>k. row ! k * zeros V V ! k ! j) [0..<V])) [0..<V] = map (\<lambda>j. 0) [0..<V]"
      by (simp only: map_eq_conv)
    then show ?thesis by (simp add: map_replicate_const)
  qed
  then have "matmul a (zeros V V) = map (\<lambda>row. replicate V 0) a"
    by (simp only: matmul_def cols len)
  then show ?thesis
    by (simp add: map_replicate_const zeros_def)
qed

lemma softmax_zeros:
  assumes "0 < V"
  shows "softmax_per_row (zeros m V) = replicate m (replicate V (1 / real V))"
proof -
  have "softmax_row (replicate V 0) = replicate V (1 / real V)"
    by (simp add: softmax_row_canonical sum_list_replicate)
  then show ?thesis
    by (simp add: softmax_per_row_def zeros_def)
qed

lemma sum_one_hot:
  assumes "in_vocab V t"
  shows "sum_list (one_hot V t) = 1"
proof -
  have t: "0 \<le> t" "nat t < V"
    using assms vocab_nat_less [OF assms] by (simp_all add: in_vocab_def)
  have "(\<lambda>c. if int c = t then 1 else (0::real)) = (\<lambda>c. if c = nat t then 1 else 0)"
    using t(1) by (auto simp: fun_eq_iff)
  then have "sum_list (one_hot V t) = (\<Sum>c \<in> {0..<V}. if c = nat t then 1 else 0)"
    by (simp add: one_hot_def interv_sum_list_conv_sum_set_nat)
  also have "\<dots> = 1"
    using t(2) by simp
  finally show ?thesis .
qed

lemma map2_times_replicate:
  fixes xs :: "real list"
  shows "map2 (*) xs (replicate (length xs) c) = map (\<lambda>x. x * c) xs"
  by (induction xs) simp_all

lemma sum_times_const:
  fixes xs :: "real list"
  shows "sum_list (map (\<lambda>x. x * c) xs) = sum_list xs * c"
  by (induction xs) (simp_all add: distrib_right)

lemma one_hot_length: "length (one_hot V t) = V"
  by (simp add: one_hot_def)

lemma uniform_products_sum:
  assumes "\<forall>t \<in> set ts. in_vocab V t"
  shows "sum_list (concat (map2 (map2 (*)) (map (one_hot V) ts)
           (replicate (length ts) (replicate V c)))) = real (length ts) * c"
  using assms
proof (induction ts)
  case Nil
  then show ?case by simp
next
  case (Cons t ts)
  have "map2 (*) (one_hot V t) (replicate V c) = map (\<lambda>x. x * c) (one_hot V t)"
    using map2_times_replicate [of "one_hot V t" c] by (simp add: one_hot_length)
  with Cons show ?case
    by (simp add: sum_times_const sum_one_hot distrib_right)
qed

text \<open>
  C6. With the weight matrix all zeros and a sentence over \<open>[0, V)\<close>, the training step
  succeeds, every row of the predictions is uniform (\<open>1 / V\<close> in each column), and the
  mean cross-entropy loss is \<open>ln V\<close>; for \<open>V = 4\<close> it is \<open>ln 4\<close>.
\<close>

theorem zero_weights_uniform:
  assumes "\<forall>t \<in> set sentence. in_vocab V t" "in_vocab V start_idx" "in_vocab V end_idx"
  shows "\<exists>r. train_step V start_idx end_idx lr (zeros V V) sentence = Inr r
     \<and> r_predictions r = replicate (length sentence + 1) (replicate V (1 / real V))
     \<and> r_loss r = ln (real V)"
proof -
  have V: "0 < V"
    using assms(2) by (simp add: in_vocab_def)
  let ?inputs = "map (one_hot V) (start_idx # sentence)"
  let ?targets = "map (one_hot V) (sentence @ [end_idx])"
  let ?m = "length sentence + 1"
  have P: "softmax_per_row (matmul ?inputs (zeros V V)) = replicate ?m (replicate V (1 / real V))"
    by (simp add: matmul_zeros [OF V] softmax_zeros [OF V])
  have "\<forall>t \<in> set (sentence @ [end_idx]). in_vocab V t"
    using assms by simp
  from uniform_products_sum [OF this, of "ln (1 / real V)"]
  have "sum_list (concat (map2 (map2 (*)) ?targets
          (map (map ln) (replicate ?m (replicate V (1 / real V)))))) = real ?m * ln (1 / real V)"
    by simp
  moreover have "ln (1 / real V) = - ln (real V)"
    using V by (simp add: ln_div)
  ultimately have loss: "- sum_list (concat (map2 (map2 (*)) ?targets
          (map (map ln) (replicate ?m (replicate V (1 / real V)))))) / real ?m = ln (real V)"
    by simp
  show ?thesis
    by (simp only: train_step_result [OF zeros_table assms] Let_def P loss) simp
qed

theorem zero_weights_uniform_witness:
  "in_vocab 4 0 \<and> in_vocab 4 1
   \<and> (\<exists>r. train_step 4 0 1 (1/10) (zeros 4 4) [2, 3] = Inr r
        \<and> r_predictions r = replicate (length [2, 3 :: int] + 1) (replicate 4 (1/4))
        \<and> r_loss r = ln 4)"
proof -
  have hyps: "\<forall>t \<in> set [2, 3]. in_vocab 4 t" "in_vocab 4 0" "in_vocab 4 1"
    by (simp_all add: in_vocab_def)
  from zero_weights_uniform [OF hyps, of "1/10"] hyps show ?thesis
    by simp
qed

subsection \<open>Determinism of a training step\<close>

text \<open>
  C9. Two runs of the loop body from states that hold the same \<open>V \<times> V\<close> weights, on the
  same sentence and with the same learning rate, both succeed and yield the same updated
  weights and append the same loss, whatever the rest of the two states (the loss lists,
  the counter), the epochs and the frozen bigram matrices are.
\<close>

theorem training_step_deterministic:
  assumes "st_W st1 = st_W st2" "is_table V V (st_W st1)"
    and "is_table V V B1" "is_table V V B2"
    and "\<forall>t \<in> set sentence. in_vocab V t" "in_vocab V start_idx" "in_vocab V end_idx"
  shows "\<exists>W' l st1' st2'.
       loop_body V start_idx end_idx lr B1 epoch1 sentence st1 = Inr st1'
     \<and> loop_body V start_idx end_idx lr B2 epoch2 sentence st2 = Inr st2'
     \<and> st_W st1' = W' \<and> st_W st2' = W'
     \<and> st_losses st1' = st_losses st1 @ [l] \<and> st_losses st2' = st_losses st2 @ [l]"
proof -
  have V: "0 < V"
    using assms(6) by (simp add: in_vocab_def)
  let ?m = "length sentence + 1"
  have W2: "is_table V V (st_W st2)"
    using assms(1,2) by simp
  obtain r where r1: "train_step V start_idx end_idx lr (st_W st1) sentence = Inr r"
    and ins: "r_inputs r = map (one_hot V) (start_idx # sentence)"
    and tgs: "r_targets r = map (one_hot V) (sentence @ [end_idx])"
    using train_step_result [OF assms(2,5-7), of lr] by (simp add: Let_def)
  have r2: "train_step V start_idx end_idx lr (st_W st2) sentence = Inr r"
    using r1 assms(1) by simp
  have inputs: "is_table ?m V (r_inputs r)"
    using one_hot_table [of "start_idx # sentence" V] by (simp add: ins)
  have targets: "is_table ?m V (r_targets r)"
    using one_hot_table [of "sentence @ [end_idx]" V] by (simp add: tgs)
  have run: "\<exists>bl. loop_body V start_idx end_idx lr B epoch sentence st =
       Inr \<lparr>st_W = r_W r, st_losses = st_losses st @ [r_loss r],
            st_bigram_losses = bl, st_j = st_j st + 1\<rparr>"
    if "train_step V start_idx end_idx lr (st_W st) sentence = Inr r" "is_table V V B"
    for B epoch st
  proof (cases "epoch = 0")
    case True
    have m: "0 < ?m" by simp
    show ?thesis
      unfolding loop_body_def
      by (simp only: that(1) and_then_Inr True if_True simp_thms
          forward_loss_ok [OF inputs targets that(2) m V]) blast
  next
    case False
    then show ?thesis
      unfolding loop_body_def
      by (simp only: that(1) and_then_Inr if_False) blast
  qed
  from run [OF r1 assms(3), of epoch1] obtain bl1 where
    s1: "loop_body V start_idx end_idx lr B1 epoch1 sentence st1 =
       Inr \<lparr>st_W = r_W r, st_losses = st_losses st1 @ [r_loss r],
            st_bigram_losses = bl1, st_j = st_j st1 + 1\<rparr>"
    by blast
  from run [OF r2 assms(4), of epoch2] obtain bl2 where
    s2: "loop_body V start_idx end_idx lr B2 epoch2 sentence st2 =
       Inr \<lparr>st_W = r_W r, st_losses = st_losses st2 @ [r_loss r],
            st_bigram_losses = bl2, st_j = st_j st2 + 1\<rparr>"
    by blast
  show ?thesis
    by (rule exI [of _ "r_W r"], rule exI [of _ "r_loss r"]) (simp add: s1 s2)
qed

theorem training_step_deterministic_witness:
  "is_table 2 2 [[0, 0], [0, 0]] \<and> in_vocab 2 0 \<and> in_vocab 2 1
   \<and> (\<exists>W' l st1' st2'.
       loop_body 2 0 1 (1/10) [[1, 2], [3, 4]] 0 []
         \<lparr>st_W = [[0, 0], [0, 0]], st_losses = [], st_bigram_losses = [], st_j = 0\<rparr> = Inr st1'
     \<and> loop_body 2 0 1 (1/10) [[5, 6], [7, 8]] 1 []
         \<lparr>st_W = [[0, 0], [0, 0]], st_losses = [3], st_bigram_losses = [4], st_j = 7\<rparr> = Inr st2'
     \<and> st_W st1' = W' \<and> st_W st2' = W'
     \<and> st_losses st1' = [] @ [l] \<and> st_losses st2' = [3] @ [l])"
proof -
  have tabs: "is_table 2 2 [[0, 0], [0, 0]]" "is_table 2 2 [[1, 2], [3, 4]]" "is_table 2 2 [[5, 6], [7, 8]]"
    by (simp_all add: is_table_def)
  have hyps: "\<forall>t \<in> set ([]::int list). in_vocab 2 t" "in_vocab 2 0" "in_vocab 2 1"
    by (simp_all add: in_vocab_def)
  let ?s1 = "\<lparr>st_W = [[0, 0], [0, 0]], st_losses = [], st_bigram_losses = [], st_j = 0\<rparr>"
  let ?s2 = "\<lparr>st_W = [[0, 0], [0, 0]], st_losses = [3], st_bigram_losses = [4], st_j = 7\<rparr>"
  have "st_W ?s1 = st_W ?s2" "is_table 2 2 (st_W ?s1)"
    using tabs(1) by simp_all
  from training_step_deterministic [OF this tabs(2,3) hyps, of "1/10" 0 1] tabs(1) hyps(2,3)
  show ?thesis
    by simp
qed

subsection \<open>Rounding to float64\<close>

lemma round_even_near:
  assumes "\<bar>q - of_int n\<bar> < 1/2"
  shows "round_even q = n"
proof (cases "of_int n \<le> q")
  case True
  with assms have "\<lfloor>q\<rfloor> = n"
    by (intro floor_unique) auto
  with assms True show ?thesis
    by (simp add: round_even_def Let_def)
next
  case False
  with assms have f: "\<lfloor>q\<rfloor> = n - 1"
    by (intro floor_unique) auto
  have "1/2 < q - of_int (n - 1)"
    using assms False by simp
  with f show ?thesis
    by (simp add: round_even_def Let_def)
qed

lemma round_even_tie:
  assumes "q = of_int n + 1/2"
  shows "round_even q = (if even n then n else n + 1)"
proof -
  have "\<lfloor>q\<rfloor> = n"
    using assms by (intro floor_unique) auto
  with assms show ?thesis
    by (simp add: round_even_def Let_def)
qed

lemma binade_floor_log:
  assumes "2 powi e \<le> \<bar>r\<bar>" "\<bar>r\<bar> < 2 powi (e + 1)"
  shows "\<lfloor>log 2 \<bar>r\<bar>\<rfloor> = e"
proof -
  have "(0::real) < 2 powi e"
    by simp
  then have pos: "0 < \<bar>r\<bar>"
    using assms(1) by (rule less_le_trans)
  have "(2::real) powr real_of_int e = 2 powi e"
    by (simp add: powr_real_of_int')
  moreover have "(2::real) powr (real_of_int e + 1) = 2 powi (e + 1)"
    using powr_real_of_int' [of 2 "e + 1"] by simp
  ultimately show ?thesis
    using assms floor_log_eq_powr_iff [of "\<bar>r\<bar>" 2 e] pos by simp
qed

lemma nearest64_binade:
  assumes "2 powi e \<le> \<bar>r\<bar>" "\<bar>r\<bar> < 2 powi (e + 1)" "- 1022 \<le> e"
  shows "nearest64 r = of_int (round_even (r / 2 powi (e - 52))) * 2 powi (e - 52)"
proof -
  have "(0::real) < 2 powi e"
    by simp
  then have "0 < \<bar>r\<bar>"
    using assms(1) by (rule less_le_trans)
  then have "r \<noteq> 0"
    by simp
  with binade_floor_log [OF assms(1,2)] assms(3) show ?thesis
    by (simp add: nearest64_def Let_def max_def)
qed

lemma nearest64_near:
  assumes "2 powi e \<le> \<bar>r\<bar>" "\<bar>r\<bar> < 2 powi (e + 1)" "- 1022 \<le> e"
    and "\<bar>r - of_int n * 2 powi (e - 52)\<bar> < 2 powi (e - 52) / 2"
  shows "nearest64 r = of_int n * 2 powi (e - 52)"
proof -
  let ?u = "(2::real) powi (e - 52)"
  have u: "0 < ?u" by simp
  have "r / ?u - of_int n = (r - of_int n * ?u) / ?u"
    using u by (simp add: field_simps)
  then have "\<bar>r / ?u - of_int n\<bar> = \<bar>r - of_int n * ?u\<bar> / ?u"
    using u by (simp add: abs_divide)
  also have "\<dots> < (?u / 2) / ?u"
    using assms(4) u by (intro divide_strict_right_mono) simp_all
  also have "\<dots> = 1/2"
    using u by simp
  finally have "round_even (r / ?u) = n"
    by (rule round_even_near)
  then show ?thesis
    by (simp add: nearest64_binade [OF assms(1-3)])
qed

lemma nearest64_tie:
  assumes "2 powi e \<le> \<bar>r\<bar>" "\<bar>r\<bar> < 2 powi (e + 1)" "- 1022 \<le> e"
    and "r = (of_int n + 1/2) * 2 powi (e - 52)" "even n"
  shows "nearest64 r = of_int n * 2 powi (e - 52)"
proof -
  let ?u = "(2::real) powi (e - 52)"
  have u: "0 < ?u" by simp
  have "r / ?u = of_int n + 1/2"
    using u assms(4) by simp
  then have "round_even (r / ?u) = n"
    using assms(5) by (simp add: round_even_tie)
  then show ?thesis
    by (simp add: nearest64_binade [OF assms(1-3)])
qed

lemma log2_powi: "log 2 (2 powi k) = real_of_int k"
  using powr_real_of_int' [of 2 k] log_powr_cancel [of 2 "real_of_int k"] by simp


lemma half_powi: "(2::real) powi (k - 1) = 2 powi k / 2"
  by (simp add: power_int_diff)


lemma round64_finite:
  assumes "nearest64 r = v" "\<bar>v\<bar> < 2 ^ 1024"
  shows "round64 r = Finite v"
  using assms by (auto simp: round64_def Let_def)


lemma nearest64_zero: "nearest64 0 = 0"
  by (simp add: nearest64_def)

lemma round64_zero: "round64 0 = Finite 0"
  by (simp add: round64_def nearest64_zero)










text \<open>
  The double nearest to 0.99 is \<open>4458563631096791 / 2^52\<close>; \<open>1 - 0.99\<close> is
  \<open>45035996273705 / 2^52\<close>, its product with 201 lies halfway between two doubles and rounds
  to the even one, and the quotient rounds to \<open>7072058789855231 / 2^45\<close>, the double below
  201.
\<close>

lemma round64_decay: "round64 (4458563631096791 / 4503599627370496) = Finite (4458563631096791 / 4503599627370496)"
proof (rule round64_finite)
  show "nearest64 (4458563631096791 / 4503599627370496) = 4458563631096791 / 4503599627370496"
    using nearest64_near [where r = "4458563631096791 / 4503599627370496" and e = "- 1"
        and n = 8917127262193582]
    by (simp add: power_int_minus)
qed simp

lemma round64_one_minus_decay:
  "round64 (1 - 4458563631096791 / 4503599627370496) = Finite (45035996273705 / 4503599627370496)"
proof (rule round64_finite)
  show "nearest64 (1 - 4458563631096791 / 4503599627370496) = 45035996273705 / 4503599627370496"
    using nearest64_near [where r = "1 - 4458563631096791 / 4503599627370496" and e = "- 7"
        and n = 5764607523034240]
    by (simp add: power_int_minus)
qed simp

lemma round64_c:
  "round64 (45035996273705 / 4503599627370496) = Finite (45035996273705 / 4503599627370496)"
  using round64_one_minus_decay by simp

lemma round64_product:
  "round64 (45035996273705 / 4503599627370496 * 201) = Finite (565764703188419 / 281474976710656)"
proof (rule round64_finite)
  show "nearest64 (45035996273705 / 4503599627370496 * 201) = 565764703188419 / 281474976710656"
    using nearest64_tie [where r = "45035996273705 / 4503599627370496 * 201" and e = 1
        and n = 4526117625507352]
    by (simp add: power_int_minus)
qed simp

lemma round64_z:
  "round64 (565764703188419 / 281474976710656) = Finite (565764703188419 / 281474976710656)"
proof (rule round64_finite)
  show "nearest64 (565764703188419 / 281474976710656) = 565764703188419 / 281474976710656"
    using nearest64_near [where r = "565764703188419 / 281474976710656" and e = 1
        and n = 4526117625507352]
    by (simp add: power_int_minus)
qed simp

lemma round64_quotient:
  "round64 (565764703188419 / 281474976710656 / (45035996273705 / 4503599627370496)) =
     Finite (7072058789855231 / 35184372088832)"
proof (rule round64_finite)
  show "nearest64 (565764703188419 / 281474976710656 / (45035996273705 / 4503599627370496)) =
      7072058789855231 / 35184372088832"
    using nearest64_near [where r = "565764703188419 / 281474976710656 / (45035996273705 / 4503599627370496)"
        and e = 7 and n = 7072058789855231]
    by (simp add: power_int_minus)
qed simp

lemma round64_product_nf:
  "round64 (9052235251014705 / 4503599627370496) = Finite (565764703188419 / 281474976710656)"
  using round64_product by simp

lemma round64_quotient_nf:
  "round64 (9052235251014704 / 45035996273705) = Finite (7072058789855231 / 35184372088832)"
  using round64_quotient by simp

text \<open>
  C7 as stated fails on float64: with the default decay 0.99 and \<open>x = [201.0]\<close> the
  function returns \<open>y[0] = 200.99999999999997\<close>.
\<close>

theorem smoothed_loss64_counterexample:
  "smoothed_loss64 [Finite 201] (4458563631096791 / 4503599627370496) =
     Inr [Finite (7072058789855231 / 35184372088832)]
   \<and> (7072058789855231 / 35184372088832 :: real) \<noteq> 201"
  by (simp add: smoothed_loss64_def smooth_step64_def f_sub_def Let_def
      round64_zero round64_decay round64_c round64_product_nf round64_z
      round64_quotient_nf)

subsection \<open>The error of one rounding, and the first smoothed value on float64\<close>

lemma round_even_err: "\<bar>of_int (round_even q) - q\<bar> \<le> 1/2"
proof -
  have "of_int \<lfloor>q\<rfloor> \<le> q" "q < of_int \<lfloor>q\<rfloor> + 1"
    by linarith+
  then show ?thesis
    by (auto simp: round_even_def Let_def)
qed

lemma nearest64_abs_err:
  assumes "r \<noteq> 0"
  shows "\<bar>nearest64 r - r\<bar> \<le> 2 powi (max \<lfloor>log 2 \<bar>r\<bar>\<rfloor> (- 1022) - 52) / 2"
proof -
  define u :: real where "u = 2 powi (max \<lfloor>log 2 \<bar>r\<bar>\<rfloor> (- 1022) - 52)"
  have u: "0 < u" by (simp add: u_def)
  have v: "nearest64 r = of_int (round_even (r / u)) * u"
    using assms by (simp add: nearest64_def Let_def u_def)
  have "nearest64 r - r = (of_int (round_even (r / u)) - r / u) * u"
    using u by (simp add: v field_simps)
  then have "\<bar>nearest64 r - r\<bar> = \<bar>of_int (round_even (r / u)) - r / u\<bar> * u"
    using u by (simp add: abs_mult)
  also have "\<dots> \<le> 1/2 * u"
    using round_even_err [of "r / u"] u by (intro mult_right_mono) simp_all
  finally show ?thesis
    by (simp add: u_def)
qed

lemma floor_log_normal:
  assumes "2 powi (- 1022) \<le> \<bar>r\<bar>"
  shows "- 1022 \<le> \<lfloor>log 2 \<bar>r\<bar>\<rfloor>" and "2 powi \<lfloor>log 2 \<bar>r\<bar>\<rfloor> \<le> \<bar>r\<bar>"
proof -
  have "(0::real) < 2 powi (- 1022)"
    by (rule zero_less_power_int) simp
  then have pos: "0 < \<bar>r\<bar>"
    using assms by (rule less_le_trans)
  have "log 2 (2 powi (- 1022)) \<le> log 2 \<bar>r\<bar>"
    using assms pos \<open>(0::real) < 2 powi (- 1022)\<close> by (subst log_le_cancel_iff) simp_all
  then have "real_of_int (- 1022) \<le> log 2 \<bar>r\<bar>"
    by (simp only: log2_powi)
  then show "- 1022 \<le> \<lfloor>log 2 \<bar>r\<bar>\<rfloor>"
    by (simp add: le_floor_iff)
  have "(2::real) powr real_of_int \<lfloor>log 2 \<bar>r\<bar>\<rfloor> \<le> \<bar>r\<bar>"
    using floor_log_eq_powr_iff [of "\<bar>r\<bar>" 2 "\<lfloor>log 2 \<bar>r\<bar>\<rfloor>"] pos by simp
  then show "2 powi \<lfloor>log 2 \<bar>r\<bar>\<rfloor> \<le> \<bar>r\<bar>"
    by (simp add: powr_real_of_int')
qed

lemma nearest64_rel_err:
  assumes "2 powi (- 1022) \<le> \<bar>r\<bar>"
  shows "\<bar>nearest64 r - r\<bar> \<le> 2 powi (- 53) * \<bar>r\<bar>"
proof -
  define e where "e = \<lfloor>log 2 \<bar>r\<bar>\<rfloor>"
  note n = floor_log_normal [OF assms, folded e_def]
  have "(0::real) < 2 powi e"
    by simp
  then have "0 < \<bar>r\<bar>"
    using n(2) by (rule less_le_trans)
  then have "r \<noteq> 0"
    by simp
  have m: "max e (- 1022) = e"
    using n(1) by (rule max_absorb1)
  from nearest64_abs_err [OF \<open>r \<noteq> 0\<close>]
  have "\<bar>nearest64 r - r\<bar> \<le> 2 powi (e - 52) / 2"
    by (simp only: e_def [symmetric] m)
  also have "2 powi (e - 52) / 2 = 2 powi (- 53) * (2::real) powi e"
    by (simp add: power_int_diff power_int_minus field_simps)
  also have "\<dots> \<le> 2 powi (- 53) * \<bar>r\<bar>"
    using n(2) by (intro mult_left_mono) simp_all
  finally show ?thesis .
qed


lemma nearest64_factor:
  assumes "2 powi (- 1022) \<le> \<bar>r\<bar>"
  obtains \<delta> where "\<bar>\<delta>\<bar> \<le> 2 powi (- 53)" "nearest64 r = r * (1 + \<delta>)"
proof -
  have "(0::real) < 2 powi (- 1022)"
    by (rule zero_less_power_int) simp
  then have pos: "0 < \<bar>r\<bar>"
    using assms by (rule less_le_trans)
  define \<delta> where "\<delta> = (nearest64 r - r) / r"
  have "\<bar>\<delta>\<bar> = \<bar>nearest64 r - r\<bar> / \<bar>r\<bar>"
    by (simp add: \<delta>_def abs_divide)
  also have "\<dots> \<le> (2 powi (- 53) * \<bar>r\<bar>) / \<bar>r\<bar>"
    using nearest64_rel_err [OF assms] pos by (intro divide_right_mono) simp_all
  also have "\<dots> = 2 powi (- 53)"
    using pos by simp
  finally have "\<bar>\<delta>\<bar> \<le> 2 powi (- 53)" .
  moreover have "nearest64 r = r * (1 + \<delta>)"
    using pos by (simp add: \<delta>_def field_simps)
  ultimately show ?thesis
    by (rule that)
qed

lemma small_delta:
  fixes \<delta> :: real
  assumes "\<bar>\<delta>\<bar> \<le> 2 powi (- 53)"
  shows "1/2 \<le> 1 + \<delta>" "1 + \<delta> \<le> 2" "\<bar>1 + \<delta>\<bar> = 1 + \<delta>"
proof -
  have "(2::real) powi (- 53) \<le> 1/2"
    by (simp add: power_int_minus field_simps)
  with assms show "1/2 \<le> 1 + \<delta>" "1 + \<delta> \<le> 2" "\<bar>1 + \<delta>\<bar> = 1 + \<delta>"
    by linarith+
qed

lemma nearest64_range:
  assumes "a \<le> \<bar>r\<bar>" "\<bar>r\<bar> \<le> b" "2 powi (- 1022) \<le> a"
  shows "a / 2 \<le> \<bar>nearest64 r\<bar>" "\<bar>nearest64 r\<bar> \<le> 2 * b"
proof -
  have n: "2 powi (- 1022) \<le> \<bar>r\<bar>"
    using assms(1,3) by linarith
  from nearest64_factor [OF n] obtain \<delta> where
    d: "\<bar>\<delta>\<bar> \<le> 2 powi (- 53)" and v: "nearest64 r = r * (1 + \<delta>)"
    by blast
  note s = small_delta [OF d]
  have abs: "\<bar>nearest64 r\<bar> = \<bar>r\<bar> * (1 + \<delta>)"
    by (simp add: v abs_mult s(3))
  have "a * (1/2) \<le> \<bar>r\<bar> * (1 + \<delta>)"
    using assms(1) s(1) n by (intro mult_mono) (auto intro: order_trans [OF _ assms(3)])
  then show "a / 2 \<le> \<bar>nearest64 r\<bar>"
    by (simp add: abs)
  have "\<bar>r\<bar> * (1 + \<delta>) \<le> b * 2"
    using assms(2) s(1,2) by (intro mult_mono) simp_all
  then show "\<bar>nearest64 r\<bar> \<le> 2 * b"
    by (simp add: abs mult.commute)
qed

lemma round64_normal:
  assumes "2 powi (- 1022) \<le> \<bar>r\<bar>" "\<bar>r\<bar> \<le> 2 powi 1000"
  shows "round64 r = Finite (nearest64 r)"
proof (rule round64_finite [OF refl])
  have "\<bar>nearest64 r\<bar> \<le> 2 * 2 powi 1000"
    using assms(1,2) order_refl by (rule nearest64_range(2))
  also have "\<dots> < (2::real) ^ 1024"
    by simp
  finally show "\<bar>nearest64 r\<bar> < 2 ^ 1024" .
qed

lemma round64_unit:
  assumes "\<bar>r\<bar> \<le> 1"
  shows "\<exists>p. round64 r = Finite p"
proof (cases "r = 0")
  case True
  then show ?thesis
    by (simp add: round64_zero)
next
  case False
  then have "log 2 \<bar>r\<bar> \<le> 0"
    using assms by simp
  then have "\<lfloor>log 2 \<bar>r\<bar>\<rfloor> \<le> 0"
    by (simp add: floor_le_iff)
  then have "max \<lfloor>log 2 \<bar>r\<bar>\<rfloor> (- 1022) - 52 \<le> - 52"
    by simp
  then have "(2::real) powi (max \<lfloor>log 2 \<bar>r\<bar>\<rfloor> (- 1022) - 52) \<le> 2 powi (- 52)"
    by (intro power_int_increasing) simp_all
  with nearest64_abs_err [OF False] have "\<bar>nearest64 r - r\<bar> \<le> 2 powi (- 52) / 2"
    by linarith
  also have "\<dots> \<le> (1::real)"
    by (simp add: power_int_minus field_simps)
  finally have "\<bar>nearest64 r\<bar> \<le> 2"
    using assms by linarith
  also have "\<dots> < (2::real) ^ 1024"
    by simp
  finally have "round64 r = Finite (nearest64 r)"
    by (rule round64_finite [OF refl])
  then show ?thesis ..
qed

lemma representable_below_one:
  assumes "nearest64 d = d" "0 \<le> d" "d < 1"
  shows "d \<le> 1 - 2 powi (- 53)"
proof (cases "d < 1/2")
  case True
  have "(2::real) powi (- 53) \<le> 1/2"
    by (simp add: power_int_minus field_simps)
  with True show ?thesis by linarith
next
  case False
  define m where "m = round_even (d / 2 powi (- 53))"
  have "2 powi (- 1) \<le> \<bar>d\<bar>" "\<bar>d\<bar> < 2 powi (- 1 + 1)"
    using False assms(3) by (simp_all add: power_int_minus)
  from nearest64_binade [OF this] assms(1)
  have d: "d = of_int m * 2 powi (- 53)"
    by (simp add: m_def)
  then have d': "d = real_of_int m / 9007199254740992"
    by (simp add: power_int_minus)
  with assms(3) have "real_of_int m < 9007199254740992"
    by simp
  then have "m < 9007199254740992"
    by simp
  then have "m \<le> 9007199254740991"
    by simp
  then have "real_of_int m \<le> 9007199254740991"
    by simp
  with d' have "d \<le> 9007199254740991 / 9007199254740992"
    by simp
  then show ?thesis
    by (simp add: power_int_minus)
qed


lemma three_roundings:
  fixes a b c :: real
  assumes "\<bar>a\<bar> \<le> 2 powi (- 53)" "\<bar>b\<bar> \<le> 2 powi (- 53)" "\<bar>c\<bar> \<le> 2 powi (- 53)"
  shows "\<bar>(1 + a) * (1 + b) * (1 + c) - 1\<bar> \<le> 2 powi (- 51)"
proof -
  define u :: real where "u = 1 / 9007199254740992"
  have u: "\<bar>a\<bar> \<le> u" "\<bar>b\<bar> \<le> u" "\<bar>c\<bar> \<le> u"
    using assms by (simp_all add: u_def power_int_minus)
  have u0: "0 \<le> u" "u \<le> 1/4"
    by (simp_all add: u_def)
  have ab: "\<bar>a * b\<bar> \<le> u * u"
    using u by (simp add: abs_mult mult_mono)
  have ac: "\<bar>a * c\<bar> \<le> u * u"
    using u by (simp add: abs_mult mult_mono)
  have bc: "\<bar>b * c\<bar> \<le> u * u"
    using u by (simp add: abs_mult mult_mono)
  have abc: "\<bar>a * b * c\<bar> \<le> u * u * u"
    using u ab u0 by (simp only: abs_mult [of "a * b" c]) (intro mult_mono, simp_all)
  have "u * u \<le> u * (1/4)"
    using u0(2,1) by (rule mult_left_mono)
  then have uu: "u * u \<le> u / 4"
    by simp
  have uuu: "u * u * u \<le> u / 16"
    using u0 uu by (simp add: u_def)
  have "(1 + a) * (1 + b) * (1 + c) - 1 = a + b + c + a * b + a * c + b * c + a * b * c"
    by (simp add: algebra_simps)
  also have "\<bar>\<dots>\<bar> \<le> 4 * u"
    using u ab ac bc abc uu uuu by linarith
  also have "4 * u = 2 powi (- 51)"
    by (simp add: u_def power_int_minus)
  finally show ?thesis .
qed

lemma normal_lo:
  fixes a :: real
  assumes "2 powi k \<le> a" "- 1022 \<le> k"
  shows "2 powi (- 1022) \<le> a"
proof -
  have "(2::real) powi (- 1022) \<le> 2 powi k"
    using assms(2) by (intro power_int_increasing) simp_all
  then show ?thesis
    using assms(1) by (rule order_trans)
qed

lemma normal_hi:
  fixes a :: real
  assumes "a \<le> 2 powi k" "k \<le> 1000"
  shows "a \<le> 2 powi 1000"
proof -
  have "(2::real) powi k \<le> 2 powi 1000"
    using assms(2) by (intro power_int_increasing) simp_all
  with assms(1) show ?thesis
    by (rule order_trans)
qed

lemma first_step64:
  assumes rep: "nearest64 d = d" and d: "0 \<le> d" "d < 1"
    and x0: "2 powi (- 900) \<le> \<bar>x0\<bar>" "\<bar>x0\<bar> \<le> 2 powi 900"
  shows "\<exists>z v. smooth_step64 d (Finite x0 # xs) 0 (y, Finite 0) = Inr (y[0 := Finite v], Finite z)
           \<and> \<bar>v - x0\<bar> \<le> 2 powi (- 51) * \<bar>x0\<bar>"
proof -
  define c where "c = nearest64 (1 - d)"
  define p where "p = nearest64 (c * x0)"
  define z where "z = nearest64 p"
  define v where "v = nearest64 (z / c)"
  have below: "d \<le> 1 - 2 powi (- 53)"
    using rep d by (rule representable_below_one)
  have r1: "2 powi (- 53) \<le> \<bar>1 - d\<bar>" "\<bar>1 - d\<bar> \<le> 1"
    using below d by simp_all
  have n1: "2 powi (- 1022) \<le> \<bar>1 - d\<bar>"
    using r1(1) by (simp add: power_int_minus)
  have h1: "\<bar>1 - d\<bar> \<le> 2 powi 1000"
    using r1(2) by simp
  have round_c: "round64 (1 - d) = Finite c"
    unfolding c_def using n1 h1 by (rule round64_normal)
  obtain d0 where d0: "\<bar>d0\<bar> \<le> 2 powi (- 53)" "c = (1 - d) * (1 + d0)"
    using nearest64_factor [OF n1] unfolding c_def by blast
  have cpos: "0 < c"
    using d(2) small_delta(1) [OF d0(1)] by (simp add: d0(2))
  have c_lo: "2 powi (- 54) \<le> c"
  proof -
    have "2 powi (- 53) * (1/2) \<le> (1 - d) * (1 + d0)"
      using r1(1) d(2) small_delta(1) [OF d0(1)] by (intro mult_mono) simp_all
    then show ?thesis
      by (simp add: d0(2) power_int_minus)
  qed
  have c_hi: "c \<le> 2"
  proof -
    have "(1 - d) * (1 + d0) \<le> 1 * 2"
      using r1(2) d small_delta(1,2) [OF d0(1)] by (intro mult_mono) simp_all
    then show ?thesis
      by (simp add: d0(2))
  qed
  have cx: "\<bar>c * x0\<bar> = c * \<bar>x0\<bar>"
    using cpos by (simp add: abs_mult)
  have cx_lo: "2 powi (- 954) \<le> \<bar>c * x0\<bar>"
  proof -
    have "2 powi (- 54) * 2 powi (- 900) \<le> c * \<bar>x0\<bar>"
      using c_lo x0(1) by (intro mult_mono) simp_all
    then show ?thesis
      by (simp add: cx power_int_minus)
  qed
  have cx_hi: "\<bar>c * x0\<bar> \<le> 2 powi 901"
  proof -
    have "c * \<bar>x0\<bar> \<le> 2 * 2 powi 900"
      using c_hi x0(2) cpos by (intro mult_mono) simp_all
    then show ?thesis
      by (simp add: cx)
  qed
  have n2: "2 powi (- 1022) \<le> \<bar>c * x0\<bar>"
    using cx_lo by (simp add: power_int_minus)
  have h2: "\<bar>c * x0\<bar> \<le> 2 powi 1000"
    using cx_hi by simp
  have round_p: "round64 (c * x0) = Finite p"
    unfolding p_def using n2 h2 by (rule round64_normal)
  obtain d1 where d1: "\<bar>d1\<bar> \<le> 2 powi (- 53)" "p = c * x0 * (1 + d1)"
    using nearest64_factor [OF n2] unfolding p_def by blast
  have p_range: "2 powi (- 954) / 2 \<le> \<bar>p\<bar>" "\<bar>p\<bar> \<le> 2 * 2 powi 901"
    unfolding p_def using cx_lo cx_hi by (rule nearest64_range; simp add: power_int_minus)+
  have n3: "2 powi (- 1022) \<le> \<bar>p\<bar>"
    using p_range(1) by (simp add: power_int_minus)
  have h3: "\<bar>p\<bar> \<le> 2 powi 1000"
    using p_range(2) by simp
  have round_z: "round64 p = Finite z"
    unfolding z_def using n3 h3 by (rule round64_normal)
  obtain d2 where d2: "\<bar>d2\<bar> \<le> 2 powi (- 53)" "z = p * (1 + d2)"
    using nearest64_factor [OF n3] unfolding z_def by blast
  have q: "z / c = x0 * ((1 + d1) * (1 + d2))"
    using cpos by (simp add: d2(2) d1(2))
  note s1 = small_delta [OF d1(1)] and s2 = small_delta [OF d2(1)]
  have f_lo: "1/2 * (1/2) \<le> (1 + d1) * (1 + d2)"
    using s1 s2 by (intro mult_mono) simp_all
  have f_hi: "(1 + d1) * (1 + d2) \<le> 2 * 2"
    using s1 s2 by (intro mult_mono) simp_all
  have qabs: "\<bar>z / c\<bar> = \<bar>x0\<bar> * ((1 + d1) * (1 + d2))"
    by (simp add: q abs_mult s1(3) s2(3))
  have q_lo: "2 powi (- 902) \<le> \<bar>z / c\<bar>"
  proof -
    have "2 powi (- 900) * (1/2 * (1/2)) \<le> \<bar>x0\<bar> * ((1 + d1) * (1 + d2))"
      using x0(1) f_lo by (rule mult_mono) simp_all
    then have "2 powi (- 900) * (1/2 * (1/2)) \<le> \<bar>z / c\<bar>"
      by (simp only: qabs)
    moreover have "(2::real) powi (- 902) = 2 powi (- 900) * (1/2 * (1/2))"
      by (simp add: power_int_minus)
    ultimately show ?thesis
      by (simp only:)
  qed
  have q_hi: "\<bar>z / c\<bar> \<le> 2 powi 902"
  proof -
    have "\<bar>x0\<bar> * ((1 + d1) * (1 + d2)) \<le> 2 powi 900 * (2 * 2)"
      using x0(2) f_hi by (rule mult_mono) (use f_lo in simp_all)
    then have "\<bar>z / c\<bar> \<le> 2 powi 900 * (2 * 2)"
      by (simp only: qabs)
    moreover have "(2::real) powi 902 = 2 powi 900 * (2 * 2)"
      by simp
    ultimately show ?thesis
      by (simp only:)
  qed
  have n4: "2 powi (- 1022) \<le> \<bar>z / c\<bar>"
    using q_lo by (rule normal_lo) simp
  have h4: "\<bar>z / c\<bar> \<le> 2 powi 1000"
    using q_hi by (rule normal_hi) simp
  have round_v: "round64 (z / c) = Finite v"
    unfolding v_def using n4 h4 by (rule round64_normal)
  obtain d3 where d3: "\<bar>d3\<bar> \<le> 2 powi (- 53)" "v = z / c * (1 + d3)"
    using nearest64_factor [OF n4] unfolding v_def by blast
  have "v - x0 = x0 * ((1 + d1) * (1 + d2) * (1 + d3) - 1)"
    by (simp add: d3(2) q algebra_simps)
  then have "\<bar>v - x0\<bar> = \<bar>x0\<bar> * \<bar>(1 + d1) * (1 + d2) * (1 + d3) - 1\<bar>"
    by (simp add: abs_mult)
  also have "\<dots> \<le> \<bar>x0\<bar> * 2 powi (- 51)"
    using three_roundings [OF d1(1) d2(1) d3(1)] by (intro mult_left_mono) simp_all
  finally have bound: "\<bar>v - x0\<bar> \<le> 2 powi (- 51) * \<bar>x0\<bar>"
    by (simp add: mult.commute)
  have round_d: "round64 d = Finite d"
    using rep d by (intro round64_finite) simp_all
  have sub: "f_sub (Finite 1) (Finite d) = Finite c"
    using round_c by (simp add: f_sub_def)
  have "smooth_step64 d (Finite x0 # xs) 0 (y, Finite 0) = Inr (y[0 := Finite v], Finite z)"
    using cpos
    by (simp add: smooth_step64_def Let_def sub round64_zero round_p round_z round_d round_v)
  with bound show ?thesis
    by blast
qed


lemma first_step64_zero:
  assumes rep: "nearest64 d = d" and d: "0 \<le> d" "d < 1"
  shows "\<exists>z. smooth_step64 d (Finite 0 # xs) 0 (y, Finite 0) = Inr (y[0 := Finite 0], Finite z)"
proof -
  define c where "c = nearest64 (1 - d)"
  have below: "d \<le> 1 - 2 powi (- 53)"
    using rep d by (rule representable_below_one)
  have r1: "2 powi (- 53) \<le> \<bar>1 - d\<bar>" "\<bar>1 - d\<bar> \<le> 2 powi 0"
    using below d by simp_all
  have n1: "2 powi (- 1022) \<le> \<bar>1 - d\<bar>"
    using r1(1) by (rule normal_lo) simp
  have h1: "\<bar>1 - d\<bar> \<le> 2 powi 1000"
    using r1(2) by (rule normal_hi) simp
  have round_c: "round64 (1 - d) = Finite c"
    unfolding c_def using n1 h1 by (rule round64_normal)
  obtain d0 where d0: "\<bar>d0\<bar> \<le> 2 powi (- 53)" "c = (1 - d) * (1 + d0)"
    using nearest64_factor [OF n1] unfolding c_def by blast
  have cpos: "0 < c"
    using d(2) small_delta(1) [OF d0(1)] by (simp add: d0(2))
  have round_d: "round64 d = Finite d"
    using rep d by (intro round64_finite) simp_all
  have sub: "f_sub (Finite 1) (Finite d) = Finite c"
    using round_c by (simp add: f_sub_def)
  have "smooth_step64 d (Finite 0 # xs) 0 (y, Finite 0) = Inr (y[0 := Finite 0], Finite 0)"
    using cpos
    by (simp add: smooth_step64_def Let_def sub round64_zero round_d)
  then show ?thesis ..
qed

lemma later_step64:
  assumes "0 \<le> d" "d < 1"
  shows "\<exists>v z. smooth_step64 d x t (y, last_z) = Inr (y[t := v], z)"
proof -
  have "0 \<le> d ^ (t + 1)" "d ^ (t + 1) \<le> 1"
    using assms by (simp_all only: zero_le_power power_le_one less_imp_le)
  then have "\<bar>d ^ (t + 1)\<bar> \<le> 1"
    by (simp only: abs_of_nonneg)
  from round64_unit [OF this] obtain p where "round64 (d ^ (t + 1)) = Finite p"
    by blast
  then show ?thesis
    by (auto simp: smooth_step64_def Let_def)
qed

lemma loop64_prefix:
  assumes d: "0 \<le> d" "d < 1"
    and first: "smooth_step64 d x 0 (replicate (length x) (Finite 0), Finite 0) =
                  Inr ((replicate (length x) (Finite 0))[0 := w], z0)"
    and k: "Suc k \<le> length x"
  shows "\<exists>y z. for_each (smooth_step64 d x) [0..<Suc k] (replicate (length x) (Finite 0), Finite 0) =
             Inr (y, z) \<and> length y = length x \<and> y ! 0 = w"
  using k
proof (induction k)
  case 0
  then have "0 < length (replicate (length x) (Finite (0::real)))"
    by (cases x) simp_all
  then have "(replicate (length x) (Finite 0))[0 := w] ! 0 = w"
    by (rule nth_list_update_eq)
  then show ?case
    by (simp add: first)
next
  case (Suc k)
  then obtain y z where run:
      "for_each (smooth_step64 d x) [0..<Suc k] (replicate (length x) (Finite 0), Finite 0) = Inr (y, z)"
    and len: "length y = length x" and hd: "y ! 0 = w"
    by auto
  from later_step64 [OF d] obtain v z' where
    step: "smooth_step64 d x (Suc k) (y, z) = Inr (y[Suc k := v], z')"
    by blast
  have "for_each (smooth_step64 d x) [0..<Suc (Suc k)] (replicate (length x) (Finite 0), Finite 0) =
      Inr (y[Suc k := v], z')"
  proof -
    have up: "[0..<Suc (Suc k)] = [0..<Suc k] @ [Suc k]"
      by simp
    show ?thesis
      by (simp only: up for_each_snoc run sum.case step)
  qed
  with len hd show ?case
    by simp
qed

lemma nearest64_decay:
  "nearest64 (4458563631096791 / 4503599627370496) = 4458563631096791 / 4503599627370496"
  using nearest64_near [where r = "4458563631096791 / 4503599627370496" and e = "- 1"
      and n = 8917127262193582]
  by (simp add: power_int_minus)

lemma smoothed_loss64_bound:
  assumes "nearest64 d = d" "0 \<le> d" "d < 1"
    and "x \<noteq> []" "x ! 0 = 0 \<or> 2 powi (- 900) \<le> \<bar>x ! 0\<bar>" "\<bar>x ! 0\<bar> \<le> 2 powi 900"
  shows "\<exists>y v. smoothed_loss64 (map Finite x) d = Inr y \<and> length y = length x
           \<and> y ! 0 = Finite v \<and> \<bar>v - x ! 0\<bar> \<le> 2 powi (- 51) * \<bar>x ! 0\<bar>"
proof -
  from assms(4) obtain x0 xs where x: "x = x0 # xs"
    by (cases x) auto
  let ?x = "map Finite x"
  let ?y = "replicate (length ?x) (Finite (0::real))"
  have "\<exists>z v. smooth_step64 d ?x 0 (?y, Finite 0) = Inr (?y[0 := Finite v], Finite z)
           \<and> \<bar>v - x0\<bar> \<le> 2 powi (- 51) * \<bar>x0\<bar>"
  proof (cases "x0 = 0")
    case True
    from first_step64_zero [OF assms(1-3), of "map Finite xs" ?y]
    show ?thesis
      by (auto simp: x True)
  next
    case False
    with assms(5,6) have "2 powi (- 900) \<le> \<bar>x0\<bar>" "\<bar>x0\<bar> \<le> 2 powi 900"
      by (simp_all add: x)
    from first_step64 [OF assms(1-3) this, of "map Finite xs" ?y]
    show ?thesis
      by (simp add: x)
  qed
  then obtain z v where first: "smooth_step64 d ?x 0 (?y, Finite 0) = Inr (?y[0 := Finite v], Finite z)"
    and bound: "\<bar>v - x0\<bar> \<le> 2 powi (- 51) * \<bar>x0\<bar>"
    by blast
  have "Suc (length xs) \<le> length ?x"
    by (simp add: x)
  from loop64_prefix [OF assms(2,3) first this]
  obtain y z' where "for_each (smooth_step64 d ?x) [0..<length ?x] (?y, Finite 0) = Inr (y, z')"
    and "length y = length ?x" "y ! 0 = Finite v"
    by (auto simp: x)
  with bound show ?thesis
    by (auto simp: smoothed_loss64_def x)
qed

subsection \<open>Rows of the float64 softmax that hold the global maximum\<close>





subsection \<open>The two claims that turn on rounding\<close>



text \<open>
  C7, as amended. For a decay \<open>d\<close> that is a float64 number with \<open>0 \<le> d < 1\<close> and a
  non-empty series \<open>x\<close> whose first entry is 0 or has a magnitude between \<open>2^-900\<close> and
  \<open>2^900\<close>: in exact real arithmetic \<open>smoothed_loss\<close> returns \<open>y\<close> with \<open>y[0] = x[0]\<close>, and
  on float64 it returns \<open>y\<close> with \<open>|y[0] - x[0]| \<le> 2^-51 |x[0]|\<close>.
\<close>

theorem smoothed_loss_first:
  assumes "0 \<le> d" "d < 1" "x \<noteq> []"
    and "nearest64 d = d" "x ! 0 = 0 \<or> 2 powi (- 900) \<le> \<bar>x ! 0\<bar>" "\<bar>x ! 0\<bar> \<le> 2 powi 900"
  shows "(\<exists>y. smoothed_loss x d = Inr y \<and> length y = length x \<and> y ! 0 = x ! 0)
     \<and> (\<exists>y v. smoothed_loss64 (map Finite x) d = Inr y \<and> length y = length x
           \<and> y ! 0 = Finite v \<and> \<bar>v - x ! 0\<bar> \<le> 2 powi (- 51) * \<bar>x ! 0\<bar>)"
  using smoothed_loss_exact [OF assms(1-3)] smoothed_loss64_bound [OF assms(4,1,2,3,5,6)]
  by (rule conjI)

theorem smoothed_loss_first_witness:
  "(0::real) \<le> 4458563631096791 / 4503599627370496
   \<and> (4458563631096791 / 4503599627370496 :: real) < 1 \<and> [201 :: real] \<noteq> []
   \<and> nearest64 (4458563631096791 / 4503599627370496) = 4458563631096791 / 4503599627370496
   \<and> (\<exists>y. smoothed_loss [201] (4458563631096791 / 4503599627370496) = Inr y
         \<and> length y = length [201 :: real] \<and> y ! 0 = 201)
   \<and> (\<exists>y v. smoothed_loss64 [Finite 201] (4458563631096791 / 4503599627370496) = Inr y
         \<and> length y = length [201 :: real] \<and> y ! 0 = Finite v
         \<and> \<bar>v - 201\<bar> \<le> 2 powi (- 51) * 201)"
proof -
  have range: "[201 :: real] ! 0 = 0 \<or> 2 powi (- 900) \<le> \<bar>[201 :: real] ! 0\<bar>"
    "\<bar>[201 :: real] ! 0\<bar> \<le> 2 powi 900"
    by (simp_all add: power_int_minus)
  have d: "(0::real) \<le> 4458563631096791 / 4503599627370496"
    "(4458563631096791 / 4503599627370496 :: real) < 1" "[201 :: real] \<noteq> []"
    by simp_all
  from smoothed_loss_first [OF d nearest64_decay range] d nearest64_decay
  show ?thesis
    by simp
qed

end
